theory Spec2Isabelle
  imports Main
begin

section \<open>Block store\<close>

text \<open>
  The persisted entity (table \<open>EvmBlock\<close>). The surrogate key \<open>id\<close> is assigned by the
  database and is absent from the insert type
  \<^verbatim>\<open>type EvmBlockInsert = Omit<Prisma.EvmBlockUncheckedCreateInput, "id">\<close>;
  it is never read by the service, so a row is modelled by its five caller-supplied
  columns. The values a caller offers are unbounded integers; the ranges of the columns
  are checked where the row is written (\<open>fitsColumns\<close>).
\<close>

record EvmBlock =
  chainId :: int
  number :: int
  hash :: string
  parentHash :: string
  timestamp :: int

text \<open>The table: its rows in insertion order.\<close>

type_synonym store = "EvmBlock list"

text \<open>
  The two unique indexes of the table, \<open>uq_evm_chain_number\<close> on \<open>(chainId, number)\<close> and
  \<open>uq_evm_chain_hash\<close> on \<open>(chainId, hash)\<close>: a candidate row \<open>r\<close> collides with a stored
  row \<open>x\<close> when either key coincides.
\<close>

definition conflicts :: "EvmBlock \<Rightarrow> EvmBlock \<Rightarrow> bool" where
  "conflicts r x \<longleftrightarrow>
     chainId x = chainId r \<and> (number x = number r \<or> hash x = hash r)"

text \<open>
  A thrown value: an error of the RPC service (with its message), the \<open>TypeError\<close> of
  reading a field of \<open>null\<close>, or an error of the store.
\<close>

datatype error = RpcError string | TypeError | StoreError string

text \<open>
  The column types of the table, as its migration declares them: \<open>"chainId" INTEGER\<close>,
  \<open>"number" BIGINT\<close>, \<open>"timestamp" INTEGER\<close> (signed, 32 and 64 bits), \<open>"hash"\<close> and
  \<open>"parentHash"\<close> \<open>TEXT\<close>.
\<close>

definition inInt32 :: "int \<Rightarrow> bool" where
  "inInt32 v \<longleftrightarrow> - (2 ^ 31) \<le> v \<and> v < 2 ^ 31"

definition inInt64 :: "int \<Rightarrow> bool" where
  "inInt64 v \<longleftrightarrow> - (2 ^ 63) \<le> v \<and> v < 2 ^ 63"

definition fitsColumns :: "EvmBlock \<Rightarrow> bool" where
  "fitsColumns r \<longleftrightarrow> inInt32 (chainId r) \<and> inInt64 (number r) \<and> inInt32 (timestamp r)"

text \<open>
  The insert with \<open>skipDuplicates\<close> (\<open>ON CONFLICT DO NOTHING\<close>): the rows are offered one
  after the other; a row that collides with a row already present (stored before the
  call or inserted earlier in the same call) is skipped without an error, any other row
  is appended. The result is the new table and the number of rows written.
\<close>

fun insertRows :: "store \<Rightarrow> EvmBlock list \<Rightarrow> store \<times> nat" where
  "insertRows s [] = (s, 0)"
| "insertRows s (r # rs) =
     (if list_ex (conflicts r) s then insertRows s rs
      else (case insertRows (s @ [r]) rs of (s', n) \<Rightarrow> (s', Suc n)))"

text \<open>
  \<^verbatim>\<open>prisma.evmBlock.createMany({ data, skipDuplicates: true })\<close>: one statement for the
  whole array. A value outside the range of its column makes the call throw and nothing
  is written, whatever the other rows are; otherwise the rows are inserted with
  duplicates skipped and the call returns \<open>count\<close>, the number of rows written.
  \<open>upsertBlocks\<close> (\<open>upsertBlock\<close> in an earlier revision of the service) passes its array
  to it unchanged.
\<close>

definition createMany :: "store \<Rightarrow> EvmBlock list \<Rightarrow> error + (store \<times> nat)" where
  "createMany s data =
     (if list_all fitsColumns data then Inr (insertRows s data)
      else Inl (StoreError ''value out of range''))"

definition upsertBlocks :: "store \<Rightarrow> EvmBlock list \<Rightarrow> error + (store \<times> nat)" where
  "upsertBlocks s input = createMany s input"

text \<open>
  The query of \<open>EvmBlocksService.getLatest\<close>,
  \<^verbatim>\<open>findFirst({ where: { chainId }, orderBy: { number: "desc" } })\<close>: the row of the
  chain with the greatest height, or \<open>null\<close>. This and the other reads that take only a
  chain (\<open>getFirst\<close>, \<open>findMissingFullRange\<close>) are the queries on the table, for a chain
  id of the column's type; the check of the argument that the client makes before the
  query is \<open>chainIdArg\<close> below, and a call of \<open>getLatest\<close> with a chain id that is not
  known to fit (from a URL, from the configuration) is \<open>getLatestCall\<close>.
\<close>

definition higher :: "EvmBlock \<Rightarrow> EvmBlock \<Rightarrow> EvmBlock" where
  "higher b r = (if number b < number r then r else b)"

definition getLatest :: "store \<Rightarrow> int \<Rightarrow> EvmBlock option" where
  "getLatest s c =
     (case filter (\<lambda>r. chainId r = c) s of
        [] \<Rightarrow> None
      | x # xs \<Rightarrow> Some (foldl higher x xs))"

text \<open>
  The row of chain \<open>c\<close> at height \<open>k\<close>, if the table holds one (the unique index on
  \<open>(chainId, number)\<close> admits at most one).
\<close>

definition rowAt :: "store \<Rightarrow> int \<Rightarrow> int \<Rightarrow> EvmBlock option" where
  "rowAt s c k = find (\<lambda>r. chainId r = c \<and> number r = k) s"

text \<open>
  The client checks the arguments of a query against the column types before it sends
  the query. A \<open>chainId\<close> outside the 32-bit range makes the call throw (\<open>chainIdArg\<close>).
  The height of \<open>byNumber\<close> is a JavaScript number offered to the \<open>BIGINT\<close> column
  (\<open>numberArg\<close>): a safe integer (magnitude up to \<open>2 ^ 53\<close>) is sent as the integer it
  is; a magnitude of \<open>2 ^ 63\<close> or more does not fit the column and the call throws; in
  between the query is made for the integer that the client's decimal text of the number
  denotes, which need not be the number (\<open>1152921504606847000\<close> for \<open>2 ^ 60\<close>). That
  text is the doing of the client and of the JavaScript engine: the integer it denotes is
  the parameter \<open>enc\<close>.
\<close>

definition chainIdArg :: "int \<Rightarrow> error + int" where
  "chainIdArg c = (if inInt32 c then Inr c else Inl (StoreError ''chainId out of range''))"

definition numberArg :: "(int \<Rightarrow> int) \<Rightarrow> int \<Rightarrow> error + int" where
  "numberArg enc num =
     (if \<bar>num\<bar> \<le> 2 ^ 53 then Inr num
      else if 2 ^ 63 \<le> \<bar>num\<bar> \<or> \<not> inInt64 (enc num) then Inl (StoreError ''number out of range'')
      else Inr (enc num))"

text \<open>
  \<open>EvmBlocksService.byNumber\<close>:
  \<^verbatim>\<open>findFirst({ where: { chainId, number: num }, orderBy: { number: "desc" } })\<close>.
\<close>

definition byNumber :: "(int \<Rightarrow> int) \<Rightarrow> store \<Rightarrow> int \<Rightarrow> int \<Rightarrow> error + EvmBlock option" where
  "byNumber enc s c num =
     (case chainIdArg c of
        Inl e \<Rightarrow> Inl e
      | Inr c' \<Rightarrow>
          (case numberArg enc num of
             Inl e \<Rightarrow> Inl e
           | Inr k \<Rightarrow> Inr (rowAt s c' k)))"

text \<open>A call of \<open>getLatest\<close>: the check of the argument, then the query.\<close>

definition getLatestCall :: "store \<Rightarrow> int \<Rightarrow> error + EvmBlock option" where
  "getLatestCall s c =
     (case chainIdArg c of
        Inl e \<Rightarrow> Inl e
      | Inr c' \<Rightarrow> Inr (getLatest s c'))"

text \<open>
  The table after a call of \<open>upsertBlocks\<close>: unchanged when the call throws. And a
  sequence of batch writes, each applied to the table the previous one left.
\<close>

definition tableAfter :: "store \<Rightarrow> EvmBlock list \<Rightarrow> store" where
  "tableAfter s input = (case upsertBlocks s input of Inl e \<Rightarrow> s | Inr (s', n) \<Rightarrow> s')"

fun upsertSeq :: "store \<Rightarrow> EvmBlock list list \<Rightarrow> store" where
  "upsertSeq s [] = s"
| "upsertSeq s (b # bs) = upsertSeq (tableAfter s b) bs"

text \<open>
  \<^verbatim>\<open>findFirst({ where: { chainId }, orderBy: { number: "asc" }, select: { number: true } })\<close>:
  the row of the chain with the least height.
\<close>

definition lower :: "EvmBlock \<Rightarrow> EvmBlock \<Rightarrow> EvmBlock" where
  "lower b r = (if number r < number b then r else b)"

definition getFirst :: "store \<Rightarrow> int \<Rightarrow> EvmBlock option" where
  "getFirst s c =
     (case filter (\<lambda>r. chainId r = c) s of
        [] \<Rightarrow> None
      | x # xs \<Rightarrow> Some (foldl lower x xs))"

text \<open>
  The gap query of \<open>findMissingFullRange\<close>. The common table expression \<open>ordered\<close> pairs
  every height of the chain within \<open>[from, to]\<close> with the next one in ascending order
  (\<^verbatim>\<open>LEAD(b."number") OVER (ORDER BY b."number")\<close>, null for the last row); the outer
  \<open>SELECT\<close> keeps the pairs with \<^verbatim>\<open>next_number > number + 1\<close> as rows
  \<open>(start_missing, end_missing) = (number + 1, next_number - 1)\<close>, in the order of the
  window, and \<open>LIMIT\<close> cuts them. Heights are \<open>bigint\<close>, modelled as unbounded integers.
\<close>

fun lead :: "int list \<Rightarrow> (int \<times> int option) list" where
  "lead [] = []"
| "lead [a] = [(a, None)]"
| "lead (a # b # xs) = (a, Some b) # lead (b # xs)"

definition ordered :: "store \<Rightarrow> int \<Rightarrow> int \<Rightarrow> int \<Rightarrow> (int \<times> int option) list" where
  "ordered s c from to =
     lead (sort (map number (filter (\<lambda>b. chainId b = c \<and> from \<le> number b \<and> number b \<le> to) s)))"

fun gapOf :: "int \<times> int option \<Rightarrow> (int \<times> int) option" where
  "gapOf (n, None) = None"
| "gapOf (n, Some next_number) =
     (if next_number > n + 1 then Some (n + 1, next_number - 1) else None)"

definition queryRanges :: "store \<Rightarrow> int \<Rightarrow> int \<Rightarrow> int \<Rightarrow> nat \<Rightarrow> (int \<times> int) list" where
  "queryRanges s c from to limit =
     take limit (List.map_filter gapOf (ordered s c from to))"

text \<open>
  The nested iteration over the rows of the query. \<open>pushRange\<close> is the inner loop
  \<^verbatim>\<open>for (let n = r.start_missing; n <= r.end_missing && missing.length < limit; n++)\<close>,
  \<open>collectMissing\<close> the outer one with its \<^verbatim>\<open>if (missing.length >= limit) break\<close>.
\<close>

function pushRange :: "nat \<Rightarrow> int \<Rightarrow> int \<Rightarrow> int list \<Rightarrow> int list" where
  "pushRange limit n end_missing missing =
     (if n \<le> end_missing \<and> length missing < limit
      then pushRange limit (n + 1) end_missing (missing @ [n])
      else missing)"
  by pat_completeness auto
termination
  by (relation "measure (\<lambda>(limit, n, e, missing). nat (e + 1 - n))") auto

declare pushRange.simps [simp del]

fun collectMissing :: "nat \<Rightarrow> (int \<times> int) list \<Rightarrow> int list \<Rightarrow> int list" where
  "collectMissing limit [] missing = missing"
| "collectMissing limit ((start_missing, end_missing) # rs) missing =
     (let missing' = pushRange limit start_missing end_missing missing
      in if length missing' \<ge> limit then missing' else collectMissing limit rs missing')"

text \<open>
  \<open>findMissingFullRange\<close>, with the constant \<^verbatim>\<open>const limit = 10\<close> of the method as a
  parameter of \<open>findMissingLimit\<close>.
\<close>

definition findMissingLimit :: "nat \<Rightarrow> store \<Rightarrow> int \<Rightarrow> int list" where
  "findMissingLimit limit s c =
     (case (getFirst s c, getLatest s c) of
        (Some firstRow, Some lastRow) \<Rightarrow>
          (let from = number firstRow; to = number lastRow
           in if to < from then []
              else collectMissing limit (queryRanges s c from to limit) [])
      | _ \<Rightarrow> [])"

definition findMissingFullRange :: "store \<Rightarrow> int \<Rightarrow> int list" where
  "findMissingFullRange s c = findMissingLimit 10 s c"


text \<open>Example rows: \<open>blockB'\<close> repeats the height of \<open>blockB\<close> under another hash,
  \<open>blockC\<close> repeats the hash of \<open>blockB\<close> under another height, \<open>blockD\<close> collides with
  none of them, and the height of \<open>blockE\<close> is \<open>2 ^ 63\<close>, one beyond the \<open>BIGINT\<close>
  range.\<close>

definition blockA :: EvmBlock where
  "blockA = \<lparr>chainId = 2, number = 8000, hash = ''0xa0'', parentHash = ''0x9f'', timestamp = 1700000000\<rparr>"

definition blockB :: EvmBlock where
  "blockB = \<lparr>chainId = 2, number = 8001, hash = ''0xa1'', parentHash = ''0xa0'', timestamp = 1700000001\<rparr>"

definition blockB' :: EvmBlock where
  "blockB' = \<lparr>chainId = 2, number = 8001, hash = ''0xff'', parentHash = ''0xa0'', timestamp = 1700000009\<rparr>"

definition blockD :: EvmBlock where
  "blockD = \<lparr>chainId = 2, number = 8003, hash = ''0xa3'', parentHash = ''0xa2'', timestamp = 1700000003\<rparr>"

definition blockC :: EvmBlock where
  "blockC = \<lparr>chainId = 2, number = 8002, hash = ''0xa1'', parentHash = ''0xa1'', timestamp = 1700000002\<rparr>"

definition blockE :: EvmBlock where
  "blockE = \<lparr>chainId = 2, number = 9223372036854775808, hash = ''0xe0'', parentHash = ''0xdf'',
     timestamp = 1700000004\<rparr>"

text \<open>The heights stored for a chain, in table order.\<close>

definition storedHeights :: "store \<Rightarrow> int \<Rightarrow> int list" where
  "storedHeights s c = map number (filter (\<lambda>r. chainId r = c) s)"

text \<open>
  The heights missing strictly inside \<open>(first, last)\<close>, in ascending order, where \<open>first\<close>
  and \<open>last\<close> are the least and the greatest stored height of the chain: the reference
  against which the gap query is compared.
\<close>

definition missingHeights :: "store \<Rightarrow> int \<Rightarrow> int list" where
  "missingHeights s c =
     (let hs = storedHeights s c
      in if hs = [] then []
         else filter (\<lambda>n. n \<notin> set hs) [Min (set hs) + 1 .. Max (set hs) - 1])"

text \<open>The heights of one row \<open>(start_missing, end_missing)\<close> of the gap query.\<close>

fun heightRange :: "int \<times> int \<Rightarrow> int list" where
  "heightRange (a, b) = [a..b]"


text \<open>
  \<^verbatim>\<open>bigint.toString()\<close>: the decimal digits, most significant first, with a minus sign
  for a negative value.
\<close>

definition digitChar :: "nat \<Rightarrow> char" where
  "digitChar d = ''0123456789'' ! d"

function digitsOf :: "nat \<Rightarrow> string" where
  "digitsOf n = (if n < 10 then [digitChar n] else digitsOf (n div 10) @ [digitChar (n mod 10)])"
  by pat_completeness auto
termination
  by (relation "measure id") auto

declare digitsOf.simps [simp del]

definition toString :: "int \<Rightarrow> string" where
  "toString i = (if i < 0 then CHR ''-'' # digitsOf (nat (- i)) else digitsOf (nat i))"

text \<open>
  Test data in the shape of the repository's watcher tests: islands of consecutive
  heights with holes between them.
\<close>

definition mockBlock :: "int \<Rightarrow> int \<Rightarrow> EvmBlock" where
  "mockBlock c n = \<lparr>chainId = c, number = n, hash = ''0xmock_'' @ toString n,
     parentHash = ''0xparent_'' @ toString n, timestamp = 1700000000\<rparr>"

definition island :: "int \<Rightarrow> int \<Rightarrow> int \<Rightarrow> EvmBlock list" where
  "island c a b = map (mockBlock c) [a..b]"

definition manyHoles :: store where
  "manyHoles = island 99 3000 3010 @ island 99 3050 3060 @ island 99 3100 3110"

definition blocksWithHoles :: store where
  "blocksWithHoles = island 3 10000 10005 @ island 3 10010 10015 @ island 3 10020 10025"

section \<open>Numbers at the JavaScript boundary\<close>

text \<open>
  \<^verbatim>\<open>Number(x)\<close> of a \<open>bigint\<close>, and \<^verbatim>\<open>parseInt(s, 10)\<close> of a digit string: the
  integer is rounded to the nearest IEEE-754 double, that is to 53 significant bits with
  ties to even. \<open>excessBits n\<close> is the number of low bits that do not fit. The overflow to
  \<open>Infinity\<close> (magnitudes from \<open>2 ^ 1024 - 2 ^ 970\<close> on) is handled where it is tested
  (\<open>isFinite\<close> in the integer pipe) and is outside the range of timestamps.
\<close>

function excessBits :: "nat \<Rightarrow> nat" where
  "excessBits n = (if n < 2 ^ 53 then 0 else Suc (excessBits (n div 2)))"
  by pat_completeness auto
termination
  by (relation "measure id") auto

declare excessBits.simps [simp del]

definition roundNat :: "nat \<Rightarrow> nat" where
  "roundNat n =
     (let e = excessBits n
      in if e = 0 then n
         else (let q = n div 2 ^ e; r = n mod 2 ^ e; half = 2 ^ (e - 1)
               in (if half < r \<or> (r = half \<and> odd q) then q + 1 else q) * 2 ^ e))"

definition toNumber :: "int \<Rightarrow> int" where
  "toNumber i = (if i < 0 then - int (roundNat (nat (- i))) else int (roundNat (nat i)))"

section \<open>Ingestion scheduler\<close>

text \<open>The block as the RPC service returns it (\<open>number\<close>, \<open>hash\<close>, \<open>parentHash\<close>,
  \<open>timestamp\<close>).\<close>

record RpcBlock =
  blockNumber :: int
  blockHash :: string
  blockParentHash :: string
  blockTimestamp :: int

text \<open>
  The collaborators of \<open>EvmWatcherProvider\<close>: the four operations of the interface
  \<open>RpcService\<close>, each asynchronous one returning its value or the error it rejects with
  (\<open>getBlockByNumber\<close> may resolve to \<open>null\<close>), and the failures of the store that do
  not depend on the rows' values (a lost connection): \<open>storeFault rows\<close> is the error with
  which the batch write of \<open>rows\<close> then rejects. The reads of the store are taken to
  succeed once their argument is accepted, and a block that is not \<open>null\<close> to carry its
  four fields.
\<close>

record env =
  getHeadNumber :: "int \<Rightarrow> error + int"
  getBlockByNumber :: "int \<Rightarrow> int \<Rightarrow> error + RpcBlock option"
  getConfiguredChainIds :: "int list"
  getChainName :: "int \<Rightarrow> string"
  storeFault :: "EvmBlock list \<Rightarrow> error option"

text \<open>The lines written through the logger: \<open>error\<close>, \<open>log\<close> and \<open>debug\<close>.\<close>

datatype logline =
    LogError int error
  | LogInsertedHead string int
  | LogSynced string "int list"
  | DebugNoClients
  | DebugNoBlocks string
  | DebugNoMissing string

text \<open>The state the scheduler acts on: the table and the log.\<close>

record watcher =
  db :: store
  logger :: "logline list"

definition writeLog :: "logline \<Rightarrow> watcher \<Rightarrow> watcher" where
  "writeLog l w = w\<lparr>logger := logger w @ [l]\<rparr>"

text \<open>The row built from a fetched block:
  \<^verbatim>\<open>{ chainId, number: b.number!, hash: b.hash!, parentHash: b.parentHash!, timestamp: Number(b.timestamp) }\<close>.\<close>

definition mapped :: "int \<Rightarrow> RpcBlock \<Rightarrow> EvmBlock" where
  "mapped c b = \<lparr>chainId = c, number = blockNumber b, hash = blockHash b,
     parentHash = blockParentHash b, timestamp = toNumber (blockTimestamp b)\<rparr>"

text \<open>\<^verbatim>\<open>await this.evmBlocks.upsertBlocks(rows)\<close>: rejects, or writes the batch.\<close>

definition storeUpsert :: "env \<Rightarrow> watcher \<Rightarrow> EvmBlock list \<Rightarrow> error + watcher" where
  "storeUpsert E w rows =
     (case storeFault E rows of
        Some e \<Rightarrow> Inl e
      | None \<Rightarrow>
          (case upsertBlocks (db w) rows of
             Inl e \<Rightarrow> Inl e
           | Inr (s', n) \<Rightarrow> Inr (w\<lparr>db := s'\<rparr>)))"




text \<open>
  \<^verbatim>\<open>await Promise.all(requests)\<close>: the list of values, or a rejection when a request
  rejects (the first one in list order is taken as the one reported).
\<close>

fun promiseAll :: "(error + 'a) list \<Rightarrow> error + 'a list" where
  "promiseAll [] = Inr []"
| "promiseAll (Inl e # ps) = Inl e"
| "promiseAll (Inr x # ps) =
     (case promiseAll ps of Inl e \<Rightarrow> Inl e | Inr xs \<Rightarrow> Inr (x # xs))"

text \<open>The \<open>.map\<close> over the fetched blocks; reading \<open>b.number\<close> of a \<open>null\<close> block throws.\<close>

fun mapBlocks :: "int \<Rightarrow> RpcBlock option list \<Rightarrow> error + EvmBlock list" where
  "mapBlocks c [] = Inr []"
| "mapBlocks c (None # bs) = Inl TypeError"
| "mapBlocks c (Some b # bs) =
     (case mapBlocks c bs of Inl e \<Rightarrow> Inl e | Inr rows \<Rightarrow> Inr (mapped c b # rows))"

text \<open>
  \<open>EvmWatcherProvider.scanClientTip\<close>: skip a chain without rows, compute the missing
  heights, skip when there are none, request every missing height, and write the whole
  batch once all requests have resolved.
\<close>

definition scanClientTip :: "env \<Rightarrow> int \<Rightarrow> watcher \<Rightarrow> error + watcher" where
  "scanClientTip E c w =
     (let name = getChainName E c in
      case getLatestCall (db w) c of
        Inl e \<Rightarrow> Inl e
      | Inr None \<Rightarrow> Inr (writeLog (DebugNoBlocks name) w)
      | Inr (Some latest) \<Rightarrow>
          (let missing = findMissingFullRange (db w) c in
           if missing = [] then Inr (writeLog (DebugNoMissing name) w)
           else
             (case promiseAll (map (getBlockByNumber E c) missing) of
                Inl e \<Rightarrow> Inl e
              | Inr bs \<Rightarrow>
                  (case mapBlocks c bs of
                     Inl e \<Rightarrow> Inl e
                   | Inr data \<Rightarrow>
                       (case storeUpsert E w data of
                          Inl e \<Rightarrow> Inl e
                        | Inr w' \<Rightarrow> Inr (writeLog (LogSynced name missing) w'))))))"

text \<open>\<open>EvmWatcherProvider.scanTipWindows\<close>: the loop over the configured chains, each scan
  inside its own \<open>try\<close>.\<close>

fun scanTipLoop :: "env \<Rightarrow> int list \<Rightarrow> watcher \<Rightarrow> watcher" where
  "scanTipLoop E [] w = w"
| "scanTipLoop E (c # cs) w =
     scanTipLoop E cs
       (case scanClientTip E c w of
          Inl err \<Rightarrow> writeLog (LogError c err) w
        | Inr w' \<Rightarrow> w')"

definition scanTipWindows :: "env \<Rightarrow> watcher \<Rightarrow> watcher" where
  "scanTipWindows E w =
     (if getConfiguredChainIds E = [] then writeLog DebugNoClients w
      else scanTipLoop E (getConfiguredChainIds E) w)"

text \<open>
  A scenario in the shape of the watcher tests: chains 1, 2 and 3 are configured, the head
  request of chain 2 fails, and so does the request for height 2007 of chain 2. The table
  holds no row of chain 1, heights 2000..2005 and 2010..2015 of chain 2, and heights
  3000..3002 and 3005..3006 of chain 3.
\<close>

definition mockRpcBlock :: "int \<Rightarrow> RpcBlock" where
  "mockRpcBlock n = \<lparr>blockNumber = n, blockHash = ''0xmock_'' @ toString n,
     blockParentHash = ''0xparent_'' @ toString n, blockTimestamp = 1700000000\<rparr>"

definition isolationEnv :: env where
  "isolationEnv = \<lparr>
     getHeadNumber = (\<lambda>c. if c = 2 then Inl (RpcError ''RpcUnavailable'') else Inr (1000 * c)),
     getBlockByNumber = (\<lambda>c n. if c = 2 \<and> n = 2007 then Inl (RpcError ''Network timeout'')
                                else Inr (Some (mockRpcBlock n))),
     getConfiguredChainIds = [1, 2, 3],
     getChainName = (\<lambda>c. ''MockChain'' @ toString c),
     storeFault = (\<lambda>rows. None)\<rparr>"

definition holesChain2 :: store where
  "holesChain2 = island 2 2000 2005 @ island 2 2010 2015"

definition holesChain3 :: store where
  "holesChain3 = island 3 3000 3002 @ island 3 3005 3006"

section \<open>Read API\<close>

text \<open>
  The path parameters pass through \<open>ParseIntPipe\<close> of the web framework: the parameter
  must match \<^verbatim>\<open>/^-?\d+$/\<close> and be finite as a number, otherwise the request is
  answered with status 400; the value handed to the route is \<^verbatim>\<open>parseInt(value, 10)\<close>, a
  JavaScript number. The pipe is modelled on the raw parameter, as the controller's tests
  exercise it.
\<close>

definition isDigit :: "char \<Rightarrow> bool" where
  "isDigit ch \<longleftrightarrow> ch \<in> set ''0123456789''"

definition digitVal :: "char \<Rightarrow> nat" where
  "digitVal ch = of_char ch - 48"

definition parseDigits :: "string \<Rightarrow> nat" where
  "parseDigits ds = foldl (\<lambda>a ch. 10 * a + digitVal ch) 0 ds"

definition matchesInteger :: "string \<Rightarrow> bool" where
  "matchesInteger s =
     (case s of
        [] \<Rightarrow> False
      | ch # ds \<Rightarrow> if ch = CHR ''-'' then ds \<noteq> [] \<and> list_all isDigit ds
                  else list_all isDigit (ch # ds))"

definition intValue :: "string \<Rightarrow> int" where
  "intValue s =
     (case s of
        [] \<Rightarrow> 0
      | ch # ds \<Rightarrow> if ch = CHR ''-'' then - int (parseDigits ds) else int (parseDigits (ch # ds)))"

definition isFiniteNumber :: "int \<Rightarrow> bool" where
  "isFiniteNumber v \<longleftrightarrow> \<bar>v\<bar> < 2 ^ 1024 - 2 ^ 970"

text \<open>What a route ends with when it does not return: an exception of the framework, or
  any other thrown value, which the framework answers as an internal server error.\<close>

datatype HttpException = BadRequestException | NotFoundException | InternalServerErrorException

definition ParseIntPipe :: "string \<Rightarrow> HttpException + int" where
  "ParseIntPipe v =
     (if matchesInteger v \<and> isFiniteNumber (intValue v) then Inr (toNumber (intValue v))
      else Inl BadRequestException)"

text \<open>A JSON object as its fields in order; the values that occur are strings and booleans.\<close>

datatype jvalue = JString string | JBool bool

type_synonym body = "(string \<times> jvalue) list"

text \<open>\<open>toEvmBlockDto\<close>: the four fields of the DTO, the two numeric ones through \<open>toString\<close>.\<close>

definition toEvmBlockDto :: "EvmBlock \<Rightarrow> body" where
  "toEvmBlockDto block =
     [(''number'', JString (toString (number block))),
      (''hash'', JString (hash block)),
      (''parentHash'', JString (parentHash block)),
      (''timestamp'', JString (toString (timestamp block)))]"

definition notFoundBody :: body where
  "notFoundBody = [(''error'', JString ''Not found'')]"

definition getHealth :: body where
  "getHealth = [(''ok'', JBool True)]"

text \<open>
  \<open>EvmBlocksController.latest\<close> and \<open>EvmBlocksController.byNumber\<close> (here \<open>byNumberRoute\<close>,
  the service method keeps the name \<open>byNumber\<close>): pipes first, then the lookup, then the
  sentinel body or the DTO. The routes catch nothing: a lookup that throws (a chain id
  or a height that the client refuses) ends the route with the thrown value.
\<close>

definition latest :: "store \<Rightarrow> string \<Rightarrow> HttpException + body" where
  "latest s chainIdParam =
     (case ParseIntPipe chainIdParam of
        Inl ex \<Rightarrow> Inl ex
      | Inr c \<Rightarrow>
          (case getLatestCall s c of
             Inl e \<Rightarrow> Inl InternalServerErrorException
           | Inr None \<Rightarrow> Inr notFoundBody
           | Inr (Some res) \<Rightarrow> Inr (toEvmBlockDto res)))"

definition byNumberRoute ::
  "(int \<Rightarrow> int) \<Rightarrow> store \<Rightarrow> string \<Rightarrow> string \<Rightarrow> HttpException + body" where
  "byNumberRoute enc s chainIdParam numberParam =
     (case ParseIntPipe chainIdParam of
        Inl ex \<Rightarrow> Inl ex
      | Inr c \<Rightarrow>
          (case ParseIntPipe numberParam of
             Inl ex \<Rightarrow> Inl ex
           | Inr num \<Rightarrow>
               (case byNumber enc s c num of
                  Inl e \<Rightarrow> Inl InternalServerErrorException
                | Inr None \<Rightarrow> Inr notFoundBody
                | Inr (Some res) \<Rightarrow> Inr (toEvmBlockDto res))))"

text \<open>
  The framework's answer: status 200 and the returned value as body for a value a \<open>GET\<close>
  handler returns, the status of the exception otherwise (the body the framework writes
  for an exception is not modelled: \<open>None\<close>). \<open>evmBlocksGet\<close> dispatches the path segments below
  \<open>evm/blocks\<close> to the routes \<open>health\<close>, \<open>:chainId/latest\<close> and \<open>:chainId/:number\<close> in their
  order of declaration; a parameter matches a segment that is not empty.
\<close>

record response =
  statusCode :: nat
  responseBody :: "body option"

fun respond :: "HttpException + body \<Rightarrow> response" where
  "respond (Inr b) = \<lparr>statusCode = 200, responseBody = Some b\<rparr>"
| "respond (Inl BadRequestException) = \<lparr>statusCode = 400, responseBody = None\<rparr>"
| "respond (Inl NotFoundException) = \<lparr>statusCode = 404, responseBody = None\<rparr>"
| "respond (Inl InternalServerErrorException) = \<lparr>statusCode = 500, responseBody = None\<rparr>"

fun evmBlocksGet :: "(int \<Rightarrow> int) \<Rightarrow> store \<Rightarrow> string list \<Rightarrow> response" where
  "evmBlocksGet enc s [seg] =
     (if seg = ''health'' then respond (Inr getHealth) else respond (Inl NotFoundException))"
| "evmBlocksGet enc s [chainIdParam, seg] =
     (if chainIdParam = [] \<or> seg = [] then respond (Inl NotFoundException)
      else if seg = ''latest'' then respond (latest s chainIdParam)
      else respond (byNumberRoute enc s chainIdParam seg))"
| "evmBlocksGet enc s segs = respond (Inl NotFoundException)"

text \<open>Stored chains for the read routes: ten consecutive heights, one height beyond
  the 32-bit range, and one beyond the safe integers (\<open>2 ^ 53 + 1\<close>). In the examples
  the number that reaches the lookup is a safe integer or is refused, so the encoding
  \<open>enc\<close> is not consulted: \<open>sameKey\<close> stands in for it.\<close>

definition storedChain :: store where
  "storedChain = island 1 19000000 19000009"


definition unsafeChain :: store where
  "unsafeChain = [mockBlock 1 9007199254740993]"

definition sameKey :: "int \<Rightarrow> int" where
  "sameKey num = num"

section \<open>RPC gateway\<close>

text \<open>
  The chain descriptors the service imports from the client library, with the names the
  repository's tests expect of them, and \<open>viemChainById\<close> with its \<open>default\<close> branch.
\<close>

datatype Chain = mainnet | optimism | arbitrum | polygon | base | sepolia

fun chainName :: "Chain \<Rightarrow> string" where
  "chainName mainnet = ''Ethereum''"
| "chainName optimism = ''OP Mainnet''"
| "chainName arbitrum = ''Arbitrum One''"
| "chainName polygon = ''Polygon''"
| "chainName base = ''Base''"
| "chainName sepolia = ''Sepolia''"

definition viemChainById :: "int \<Rightarrow> Chain" where
  "viemChainById id' =
     (if id' = 1 then mainnet
      else if id' = 10 then optimism
      else if id' = 137 then polygon
      else if id' = 42161 then arbitrum
      else if id' = 8453 then base
      else if id' = 11155111 then sepolia
      else mainnet)"

text \<open>
  A client as \<^verbatim>\<open>createPublicClient({ chain, transport: http(url) })\<close> builds it: the chain
  descriptor and the URL handed to the transport. The configuration is
  \<^verbatim>\<open>ConfigService.get(key, default)\<close>.
\<close>

record PublicClient =
  chain :: Chain
  transportUrl :: string

type_synonym config = "string \<Rightarrow> string option"

definition configGet :: "config \<Rightarrow> string \<Rightarrow> string \<Rightarrow> string" where
  "configGet cfg key dflt = (case cfg key of Some v \<Rightarrow> v | None \<Rightarrow> dflt)"

definition createPublicClient :: "Chain \<Rightarrow> string \<Rightarrow> PublicClient" where
  "createPublicClient ch url = \<lparr>chain = ch, transportUrl = url\<rparr>"

text \<open>
  \<open>ViemRpcService\<close>: the map \<open>clients\<close> in insertion order. The constructor stores the
  client of chain 1; \<open>getClient\<close> returns the cached client or builds one from
  \<open>viemChainById\<close> and \<^verbatim>\<open>RPC_CHAIN_${chainId}_URL\<close> and caches it.
\<close>

type_synonym clients = "(int \<times> PublicClient) list"

definition ViemRpcService :: "config \<Rightarrow> clients" where
  "ViemRpcService cfg =
     [(1, createPublicClient (viemChainById 1) (configGet cfg ''RPC_ETH_MAINNET_URL'' ''''))]"

definition getClient :: "config \<Rightarrow> clients \<Rightarrow> int \<Rightarrow> PublicClient \<times> clients" where
  "getClient cfg cl chainId' =
     (case map_of cl chainId' of
        Some existing \<Rightarrow> (existing, cl)
      | None \<Rightarrow>
          (let url = configGet cfg (''RPC_CHAIN_'' @ toString chainId' @ ''_URL'') '''';
               client = createPublicClient (viemChainById chainId') url
           in (client, cl @ [(chainId', client)])))"

text \<open>
  The operations of the service. \<^verbatim>\<open>client.getBlock\<close> goes to the network through the
  client's transport: \<open>net client request\<close> is its outcome. Each operation also returns the
  map of clients it leaves.
\<close>

datatype blockRequest = BlockTagLatest | BlockNumber int

type_synonym transport = "PublicClient \<Rightarrow> blockRequest \<Rightarrow> error + RpcBlock"

definition viemGetHeadNumber ::
  "transport \<Rightarrow> config \<Rightarrow> clients \<Rightarrow> int \<Rightarrow> (error + int) \<times> clients" where
  "viemGetHeadNumber net cfg cl chainId' =
     (case getClient cfg cl chainId' of
        (client, cl') \<Rightarrow>
          (case net client BlockTagLatest of
             Inl e \<Rightarrow> (Inl e, cl')
           | Inr b \<Rightarrow> (Inr (blockNumber b), cl')))"

definition viemGetBlockByNumber ::
  "transport \<Rightarrow> config \<Rightarrow> clients \<Rightarrow> int \<Rightarrow> int \<Rightarrow> (error + RpcBlock) \<times> clients" where
  "viemGetBlockByNumber net cfg cl chainId' num =
     (case getClient cfg cl chainId' of
        (client, cl') \<Rightarrow> (net client (BlockNumber num), cl'))"

definition viemGetConfiguredChainIds :: "clients \<Rightarrow> int list" where
  "viemGetConfiguredChainIds cl = map fst cl"

definition viemGetChainName :: "config \<Rightarrow> clients \<Rightarrow> int \<Rightarrow> string \<times> clients" where
  "viemGetChainName cfg cl chainId' =
     (case getClient cfg cl chainId' of
        (client, cl') \<Rightarrow> (chainName (chain client), cl'))"

text \<open>A configuration in which no variable is set.\<close>

definition noConfig :: config where
  "noConfig = (\<lambda>key. None)"

section \<open>Metrics: route normalization\<close>

text \<open>
  \<open>MetricsService.normalizeRoute\<close> is a chain of five global regular-expression
  replacements. Each expression starts with a literal \<open>/\<close>, so a match can only start at a
  slash; what follows the slash is matched by one of the functions below, which return the
  number of characters matched after the slash. The character classes \<open>[0-9a-f]\<close> and the
  letter \<open>x\<close> are case-insensitive (flag \<open>i\<close>), \<open>\d\<close> is an ASCII digit.
  \<open>fixedMatch k ok\<close> matches exactly \<open>k\<close> characters of the right shape, \<open>runMatch p\<close> a
  longest non-empty run (the greedy \<open>+\<close>).
\<close>

definition isHex :: "char \<Rightarrow> bool" where
  "isHex ch \<longleftrightarrow> ch \<in> set ''0123456789abcdefABCDEF''"

definition fixedMatch :: "nat \<Rightarrow> (string \<Rightarrow> bool) \<Rightarrow> string \<Rightarrow> nat option" where
  "fixedMatch k ok s = (if length (take k s) = k \<and> ok (take k s) then Some k else None)"

definition runMatch :: "(char \<Rightarrow> bool) \<Rightarrow> string \<Rightarrow> nat option" where
  "runMatch p s = (if takeWhile p s = [] then None else Some (length (takeWhile p s)))"

text \<open>The UUID expression: groups of 8, 4, 4, 4 and 12 hex digits separated by dashes.\<close>

definition charClass :: "char \<Rightarrow> char" where
  "charClass ch = (if isHex ch then CHR ''h'' else if ch = CHR ''-'' then CHR ''-'' else CHR ''?'')"

definition uuidShape :: "string \<Rightarrow> bool" where
  "uuidShape t \<longleftrightarrow> map charClass t = ''hhhhhhhh-hhhh-hhhh-hhhh-hhhhhhhhhhhh''"

definition matchUuid :: "string \<Rightarrow> nat option" where
  "matchUuid s = fixedMatch 36 uuidShape s"

text \<open>\<^verbatim>\<open>/\/0x[a-f0-9]+/gi\<close>, \<^verbatim>\<open>/\/[a-f0-9]{64}/gi\<close>, \<^verbatim>\<open>/\/[a-f0-9]{40}/gi\<close> and
  \<^verbatim>\<open>/\/\d+/g\<close>.\<close>

definition matchHexPrefixed :: "string \<Rightarrow> nat option" where
  "matchHexPrefixed s =
     (case s of
        z # x # rest \<Rightarrow>
          if z = CHR ''0'' \<and> (x = CHR ''x'' \<or> x = CHR ''X'')
          then map_option (\<lambda>n. 2 + n) (runMatch isHex rest)
          else None
      | _ \<Rightarrow> None)"

definition matchHex64 :: "string \<Rightarrow> nat option" where
  "matchHex64 s = fixedMatch 64 (list_all isHex) s"

definition matchHex40 :: "string \<Rightarrow> nat option" where
  "matchHex40 s = fixedMatch 40 (list_all isHex) s"

definition matchDigits :: "string \<Rightarrow> nat option" where
  "matchDigits s = runMatch isDigit s"

text \<open>
  \<^verbatim>\<open>String.prototype.replace\<close> with a global expression: the string is scanned from
  the left; where the expression matches, the replacement is emitted and the scan goes on
  behind the match; elsewhere the character is copied.
\<close>

fun replaceAll :: "(string \<Rightarrow> nat option) \<Rightarrow> string \<Rightarrow> string \<Rightarrow> string" where
  "replaceAll m r [] = []"
| "replaceAll m r (ch # cs) =
     (if ch = CHR ''/''
      then (case m cs of
              Some k \<Rightarrow> r @ replaceAll m r (drop k cs)
            | None \<Rightarrow> ch # replaceAll m r cs)
      else ch # replaceAll m r cs)"

definition normalizeRoute :: "string \<Rightarrow> string" where
  "normalizeRoute path =
     (let replaced =
        replaceAll matchDigits ''/:id''
          (replaceAll matchHex40 ''/:address''
            (replaceAll matchHex64 ''/:hash''
              (replaceAll matchHexPrefixed ''/:hash''
                (replaceAll matchUuid ''/:id'' path))))
      in if replaced = [] then ''/unknown'' else replaced)"

text \<open>
  \<open>MetricsMiddleware.use\<close>: the label recorded in the histogram is the normalization of
  \<^verbatim>\<open>req.route?.path || req.path || '/unknown'\<close>.
\<close>

definition routeLabel :: "string option \<Rightarrow> string \<Rightarrow> string" where
  "routeLabel routePath reqPath =
     normalizeRoute
       (case routePath of
          Some p \<Rightarrow> if p \<noteq> [] then p else if reqPath \<noteq> [] then reqPath else ''/unknown''
        | None \<Rightarrow> if reqPath \<noteq> [] then reqPath else ''/unknown'')"

text \<open>
  The segments of a path (the pieces between slashes), and the shapes the label must not
  contain: a digit-only segment, a segment of 40 or of 64 hex digits, a \<open>0x\<close>-prefixed hex
  segment, a UUID.
\<close>

fun splitSlash :: "string \<Rightarrow> string list" where
  "splitSlash [] = [Nil]"
| "splitSlash (ch # cs) =
     (if ch = CHR ''/'' then [] # splitSlash cs
      else (ch # hd (splitSlash cs)) # tl (splitSlash cs))"

definition digitOnly :: "string \<Rightarrow> bool" where
  "digitOnly seg \<longleftrightarrow> seg \<noteq> [] \<and> list_all isDigit seg"

definition hexOfLength :: "nat \<Rightarrow> string \<Rightarrow> bool" where
  "hexOfLength k seg \<longleftrightarrow> length seg = k \<and> list_all isHex seg"

definition hexPrefixed :: "string \<Rightarrow> bool" where
  "hexPrefixed seg =
     (case seg of
        z # x # rest \<Rightarrow> z = CHR ''0'' \<and> (x = CHR ''x'' \<or> x = CHR ''X'') \<and> rest \<noteq> [] \<and> list_all isHex rest
      | _ \<Rightarrow> False)"

definition idLike :: "string \<Rightarrow> bool" where
  "idLike seg \<longleftrightarrow>
     digitOnly seg \<or> hexOfLength 40 seg \<or> hexOfLength 64 seg \<or> hexPrefixed seg \<or> uuidShape seg"

text \<open>
  Notions for the proofs: a string without a slash; a string that is empty or starts with
  a slash (a request path, a route pattern); the path made of given segments; the effect
  of one replacement, and of all five, on a single segment; a matcher whose result depends
  on the segment at the slash only.
\<close>

definition slashFree :: "string \<Rightarrow> bool" where
  "slashFree t \<longleftrightarrow> CHR ''/'' \<notin> set t"

definition boundary :: "string \<Rightarrow> bool" where
  "boundary rest \<longleftrightarrow> rest = [] \<or> hd rest = CHR ''/''"

definition slashLed :: "string \<Rightarrow> bool" where
  "slashLed p \<longleftrightarrow> p = [] \<or> hd p = CHR ''/''"

definition joinSegs :: "string list \<Rightarrow> string" where
  "joinSegs segs = concat (map ((#) CHR ''/'') segs)"

definition segRep :: "(string \<Rightarrow> nat option) \<Rightarrow> string \<Rightarrow> string \<Rightarrow> string" where
  "segRep m r seg = (case m seg of Some k \<Rightarrow> r @ drop k seg | None \<Rightarrow> seg)"

definition localMatcher :: "(string \<Rightarrow> nat option) \<Rightarrow> bool" where
  "localMatcher m \<longleftrightarrow>
     (\<forall>seg rest. slashFree seg \<and> boundary rest \<longrightarrow>
        m (seg @ rest) = m seg \<and> (\<forall>k. m seg = Some k \<longrightarrow> k \<le> length seg))"

definition normSeg :: "string \<Rightarrow> string" where
  "normSeg seg =
     segRep matchDigits '':id''
       (segRep matchHex40 '':address''
         (segRep matchHex64 '':hash''
           (segRep matchHexPrefixed '':hash''
             (segRep matchUuid '':id'' seg))))"

section \<open>Properties of the batch write\<close>

lemma conflicts_refl: "conflicts r r"
  by (simp add: conflicts_def)

lemma insertRows_extends:
  "\<exists>ext. fst (insertRows s xs) = s @ ext \<and> length ext = snd (insertRows s xs)"
proof (induction xs arbitrary: s)
  case Nil
  then show ?case by simp
next
  case (Cons r rs)
  show ?case
  proof (cases "list_ex (conflicts r) s")
    case True
    then show ?thesis using Cons.IH [of s] by simp
  next
    case False
    obtain ext where e: "fst (insertRows (s @ [r]) rs) = (s @ [r]) @ ext"
      "length ext = snd (insertRows (s @ [r]) rs)"
      using Cons.IH [of "s @ [r]"] by blast
    have "fst (insertRows s (r # rs)) = s @ (r # ext)"
      using False e by (simp add: split_beta)
    moreover have "length (r # ext) = snd (insertRows s (r # rs))"
      using False e by (simp add: split_beta)
    ultimately show ?thesis by blast
  qed
qed

lemma insertRows_keeps_conflict:
  assumes "list_ex p s"
  shows "list_ex p (fst (insertRows s xs))"
proof -
  obtain ext where "fst (insertRows s xs) = s @ ext"
    using insertRows_extends by blast
  then show ?thesis using assms by (auto simp: list_ex_iff)
qed

lemma insertRows_covers:
  "r \<in> set xs \<Longrightarrow> list_ex (conflicts r) (fst (insertRows s xs))"
proof (induction xs arbitrary: s)
  case Nil
  then show ?case by simp
next
  case (Cons a as)
  show ?case
  proof (cases "r = a")
    case True
    show ?thesis
    proof (cases "list_ex (conflicts a) s")
      case c: True
      then show ?thesis
        using insertRows_keeps_conflict [of "conflicts a" s as] True by simp
    next
      case False
      have "list_ex (conflicts a) (s @ [a])"
        by (simp add: list_ex_iff conflicts_refl)
      then have "list_ex (conflicts a) (fst (insertRows (s @ [a]) as))"
        by (rule insertRows_keeps_conflict)
      then show ?thesis using False True by (simp add: split_beta)
    qed
  next
    case False
    then have "r \<in> set as" using Cons.prems by simp
    then show ?thesis using Cons.IH by (simp add: split_beta)
  qed
qed

lemma insertRows_all_skipped:
  "(\<forall>r \<in> set xs. list_ex (conflicts r) s) \<Longrightarrow> insertRows s xs = (s, 0)"
  by (induction xs) auto

lemma insertRows_append:
  "insertRows s (xs @ ys) =
     (case insertRows s xs of (s1, n1) \<Rightarrow>
        (case insertRows s1 ys of (s2, n2) \<Rightarrow> (s2, n1 + n2)))"
  by (induction xs arbitrary: s) (auto simp: split_beta)

lemma insertRows_drop_covered:
  "(\<forall>r \<in> D. list_ex (conflicts r) s) \<Longrightarrow>
     insertRows s (filter (\<lambda>r. r \<notin> D) ys) = insertRows s ys"
proof (induction ys arbitrary: s)
  case Nil
  then show ?case by simp
next
  case (Cons a as)
  show ?case
  proof (cases "list_ex (conflicts a) s")
    case True
    then show ?thesis using Cons by simp
  next
    case False
    then have "a \<notin> D" using Cons.prems by blast
    moreover have "\<forall>r \<in> D. list_ex (conflicts r) (s @ [a])"
      using Cons.prems by (auto simp: list_ex_iff)
    ultimately show ?thesis using False Cons.IH [of "s @ [a]"] by simp
  qed
qed

lemma upsertBlocks_accepts:
  "list_all fitsColumns xs \<Longrightarrow> upsertBlocks s xs = Inr (insertRows s xs)"
  by (simp add: upsertBlocks_def createMany_def)

lemma upsertBlocks_rejects:
  "\<not> list_all fitsColumns xs \<Longrightarrow> upsertBlocks s xs = Inl (StoreError ''value out of range'')"
  by (simp add: upsertBlocks_def createMany_def)

lemma upsertBlocks_Inr:
  "upsertBlocks s xs = Inr (s', n) \<Longrightarrow> list_all fitsColumns xs \<and> insertRows s xs = (s', n)"
  by (simp add: upsertBlocks_def createMany_def split: if_splits)

lemma tableAfter_accepts:
  "list_all fitsColumns xs \<Longrightarrow> tableAfter s xs = fst (insertRows s xs)"
  by (simp add: tableAfter_def upsertBlocks_accepts split_beta)

lemma tableAfter_rejects: "\<not> list_all fitsColumns xs \<Longrightarrow> tableAfter s xs = s"
  by (simp add: tableAfter_def upsertBlocks_rejects)

lemma tableAfter_extends: "\<exists>ext. tableAfter s xs = s @ ext"
proof (cases "list_all fitsColumns xs")
  case True
  then show ?thesis using insertRows_extends [of s xs] by (auto simp: tableAfter_accepts)
next
  case False
  then show ?thesis by (simp add: tableAfter_rejects)
qed

lemma upsertSeq_extends: "\<exists>ext. upsertSeq s bs = s @ ext"
proof (induction bs arbitrary: s)
  case Nil
  then show ?case by simp
next
  case (Cons b bs)
  obtain e1 where e1: "tableAfter s b = s @ e1"
    using tableAfter_extends by blast
  obtain e2 where "upsertSeq (tableAfter s b) bs = tableAfter s b @ e2"
    using Cons.IH by blast
  then have "upsertSeq s (b # bs) = s @ (e1 @ e2)" using e1 by simp
  then show ?case by blast
qed

lemma find_append_Some: "find P xs = Some h \<Longrightarrow> find P (xs @ ys) = Some h"
  by (induction xs) (auto split: if_splits)

lemma byNumber_append:
  "byNumber enc s c n = Inr (Some h) \<Longrightarrow> byNumber enc (s @ ext) c n = Inr (Some h)"
  by (auto simp: byNumber_def rowAt_def find_append_Some split: sum.splits)

lemma foldl_higher_ge: "number b \<le> number (foldl higher b ys)"
proof (induction ys arbitrary: b)
  case Nil
  then show ?case by simp
next
  case (Cons y ys)
  have "number b \<le> number (higher b y)" by (simp add: higher_def)
  also have "\<dots> \<le> number (foldl higher (higher b y) ys)" by (rule Cons.IH)
  finally show ?case by simp
qed

lemma getLatest_append:
  assumes "getLatest s c = Some l"
  shows "\<exists>l'. getLatest (s @ ext) c = Some l' \<and> number l \<le> number l'"
proof -
  obtain x xs where f: "filter (\<lambda>r. chainId r = c) s = x # xs" and l: "l = foldl higher x xs"
    using assms by (auto simp: getLatest_def split: list.splits)
  have "getLatest (s @ ext) c = Some (foldl higher l (filter (\<lambda>r. chainId r = c) ext))"
    using f l by (simp add: getLatest_def)
  then show ?thesis using foldl_higher_ge by blast
qed

text \<open>
  Claim C10. The batch write never modifies or removes an existing row. After any
  sequence of \<open>upsertBlocks\<close> calls, accepted or rejected, the table is the old table
  followed by new rows; a header that \<open>byNumber\<close> returned is returned unchanged
  afterwards; and the height of \<open>getLatest\<close> never decreases.
\<close>

theorem upsert_never_rewrites:
  "(\<exists>ext. upsertSeq s bs = s @ ext)
   \<and> (byNumber enc s c n = Inr (Some h) \<longrightarrow> byNumber enc (upsertSeq s bs) c n = Inr (Some h))
   \<and> (getLatest s c = Some l \<longrightarrow>
        (\<exists>l'. getLatest (upsertSeq s bs) c = Some l' \<and> number l \<le> number l'))"
proof -
  obtain ext where e: "upsertSeq s bs = s @ ext" using upsertSeq_extends by blast
  show ?thesis
    unfolding e using getLatest_append [of s c l ext] byNumber_append [of enc s c n h ext]
    by blast
qed

lemma insertRows_consistent_set:
  "(\<forall>a \<in> set s \<union> set xs. \<forall>b \<in> set s \<union> set xs. conflicts a b \<longrightarrow> a = b)
     \<Longrightarrow> set (fst (insertRows s xs)) = set s \<union> set xs"
proof (induction xs arbitrary: s)
  case Nil
  then show ?case by simp
next
  case (Cons r rs)
  show ?case
  proof (cases "list_ex (conflicts r) s")
    case True
    then obtain x where x: "x \<in> set s" "conflicts r x" by (auto simp: list_ex_iff)
    then have "r = x" using Cons.prems by auto
    then have "r \<in> set s" using x by simp
    moreover have "set (fst (insertRows s rs)) = set s \<union> set rs"
      using Cons.prems by (intro Cons.IH) auto
    ultimately show ?thesis using True by auto
  next
    case False
    have "set (fst (insertRows (s @ [r]) rs)) = set (s @ [r]) \<union> set rs"
      using Cons.prems by (intro Cons.IH) auto
    then show ?thesis using False by (simp add: split_beta)
  qed
qed

lemma insert_union_set:
  assumes "\<forall>a \<in> set s \<union> set A \<union> set B. \<forall>b \<in> set s \<union> set A \<union> set B. conflicts a b \<longrightarrow> a = b"
    and "set U = set A \<union> set B"
  shows "set (fst (insertRows s U)) = set (fst (insertRows (fst (insertRows s A)) B))"
proof -
  have "fst (insertRows (fst (insertRows s A)) B) = fst (insertRows s (A @ B))"
    by (simp add: insertRows_append split_beta)
  moreover have "set (fst (insertRows s (A @ B))) = set s \<union> set (A @ B)"
    using assms(1) by (intro insertRows_consistent_set) auto
  moreover have "set (fst (insertRows s U)) = set s \<union> set U"
    using assms by (intro insertRows_consistent_set) auto
  ultimately show ?thesis using assms(2) by simp
qed

text \<open>
  Claim C1 as stated fails: the table after two writes is not determined by the rows of
  the two batches. \<open>blockB\<close> and \<open>blockB'\<close> are two headers of height 8001: writing
  \<open>[blockB]\<close> and then \<open>[blockB']\<close> stores \<open>blockB\<close>, while the one batch
  \<open>[blockB', blockB]\<close>, which holds exactly the rows of the two, stores \<open>blockB'\<close>.
  And \<open>blockE\<close> has a height of \<open>2 ^ 63\<close>: the write of \<open>[blockE]\<close> is rejected and the
  write of \<open>[blockA]\<close> after it stores \<open>blockA\<close>, while the one batch \<open>[blockE, blockA]\<close>
  is rejected and stores nothing.
\<close>

theorem write_order_counterexample:
  "upsertBlocks [] [blockB] = Inr ([blockB], 1)
   \<and> upsertBlocks [blockB] [blockB'] = Inr ([blockB], 0)
   \<and> set [blockB', blockB] = set [blockB] \<union> set [blockB']
   \<and> upsertBlocks [] [blockB', blockB] = Inr ([blockB'], 1)
   \<and> hash blockB \<noteq> hash blockB'
   \<and> upsertBlocks [] [blockE] = Inl (StoreError ''value out of range'')
   \<and> upsertBlocks [] [blockA] = Inr ([blockA], 1)
   \<and> upsertBlocks [] [blockE, blockA] = Inl (StoreError ''value out of range'')"
  by (simp add: upsertBlocks_def createMany_def fitsColumns_def inInt32_def inInt64_def
      conflicts_def blockA_def blockB_def blockB'_def blockE_def insert_commute)

text \<open>
  Claim C1, amended. For batches whose rows fit the columns, writing \<open>S1\<close> and then
  \<open>S2\<close> leaves the table, and returns in total the count, of one write of \<open>S1\<close>
  followed by \<open>S2\<close>, and of one write of \<open>S1\<close> followed by the rows of \<open>S2\<close> not
  already in \<open>S1\<close>; the count is the number of rows appended; replaying a batch writes
  nothing and returns zero; and when no two different rows among the table and the
  batches collide, any batch \<open>U\<close> that holds exactly the rows of \<open>S1\<close> and \<open>S2\<close>, in any
  order and with any repetitions, leaves the same set of rows (when rows collide, the one
  offered first is stored). A row that repeats the \<open>(chainId, number)\<close> or the
  \<open>(chainId, hash)\<close> of a stored row is skipped without error, any other row is written.
  A batch with a value outside its column's range is rejected as a whole and the table
  is unchanged.
\<close>

theorem upsertMany_idempotent:
  "(list_all fitsColumns S1 \<and> list_all fitsColumns S2 \<longrightarrow>
      (\<exists>s1 n1 s2 n2.
          upsertBlocks s S1 = Inr (s1, n1) \<and> upsertBlocks s1 S2 = Inr (s2, n2)
        \<and> upsertBlocks s (S1 @ S2) = Inr (s2, n1 + n2)
        \<and> upsertBlocks s (S1 @ filter (\<lambda>r. r \<notin> set S1) S2) = Inr (s2, n1 + n2)
        \<and> (\<exists>ext. s1 = s @ ext \<and> n1 = length ext)
        \<and> upsertBlocks s1 S1 = Inr (s1, 0)
        \<and> ((\<forall>a \<in> set s \<union> set S1 \<union> set S2. \<forall>b \<in> set s \<union> set S1 \<union> set S2.
               conflicts a b \<longrightarrow> a = b) \<and> set U = set S1 \<union> set S2
             \<longrightarrow> (\<exists>sU nU. upsertBlocks s U = Inr (sU, nU) \<and> set sU = set s2))))
   \<and> (fitsColumns r \<and> x \<in> set s \<and> chainId x = chainId r
        \<and> (number x = number r \<or> hash x = hash r)
      \<longrightarrow> upsertBlocks s [r] = Inr (s, 0))
   \<and> (fitsColumns r \<and> \<not> list_ex (conflicts r) s \<longrightarrow> upsertBlocks s [r] = Inr (s @ [r], 1))
   \<and> (\<not> list_all fitsColumns S1
      \<longrightarrow> (\<exists>e. upsertBlocks s S1 = Inl e) \<and> tableAfter s S1 = s
          \<and> (\<exists>e. upsertBlocks s (S1 @ S2) = Inl e) \<and> (\<exists>e. upsertBlocks s (S2 @ S1) = Inl e))"
proof (intro conjI impI)
  assume fit: "list_all fitsColumns S1 \<and> list_all fitsColumns S2"
  obtain s1 n1 where i1: "insertRows s S1 = (s1, n1)" by (cases "insertRows s S1")
  obtain s2 n2 where i2: "insertRows s1 S2 = (s2, n2)" by (cases "insertRows s1 S2")
  have cov: "\<forall>r \<in> set S1. list_ex (conflicts r) s1"
    using insertRows_covers [of _ S1 s] i1 by simp
  have fitF: "list_all fitsColumns (filter (\<lambda>r. r \<notin> set S1) S2)"
    using fit by (auto simp: list_all_iff)
  have a: "upsertBlocks s S1 = Inr (s1, n1)"
    using fit i1 by (simp add: upsertBlocks_accepts)
  have b: "upsertBlocks s1 S2 = Inr (s2, n2)"
    using fit i2 by (simp add: upsertBlocks_accepts)
  have c: "upsertBlocks s (S1 @ S2) = Inr (s2, n1 + n2)"
    using fit i1 i2 by (simp add: upsertBlocks_accepts insertRows_append)
  have "insertRows s1 (filter (\<lambda>r. r \<notin> set S1) S2) = (s2, n2)"
    using insertRows_drop_covered [OF cov, of S2] i2 by simp
  then have d: "upsertBlocks s (S1 @ filter (\<lambda>r. r \<notin> set S1) S2) = Inr (s2, n1 + n2)"
    using fit fitF i1 by (simp add: upsertBlocks_accepts insertRows_append)
  have e: "\<exists>ext. s1 = s @ ext \<and> n1 = length ext"
    using insertRows_extends [of s S1] i1 by auto
  have "insertRows s1 S1 = (s1, 0)"
    using cov by (rule insertRows_all_skipped)
  then have f: "upsertBlocks s1 S1 = Inr (s1, 0)"
    using fit by (simp add: upsertBlocks_accepts)
  have g: "(\<forall>a \<in> set s \<union> set S1 \<union> set S2. \<forall>b \<in> set s \<union> set S1 \<union> set S2.
               conflicts a b \<longrightarrow> a = b) \<and> set U = set S1 \<union> set S2
             \<longrightarrow> (\<exists>sU nU. upsertBlocks s U = Inr (sU, nU) \<and> set sU = set s2)"
  proof
    assume h: "(\<forall>a \<in> set s \<union> set S1 \<union> set S2. \<forall>b \<in> set s \<union> set S1 \<union> set S2.
               conflicts a b \<longrightarrow> a = b) \<and> set U = set S1 \<union> set S2"
    then have fitU: "list_all fitsColumns U" using fit by (auto simp: list_all_iff)
    have "set (fst (insertRows s U)) = set (fst (insertRows (fst (insertRows s S1)) S2))"
      using h by (intro insert_union_set) blast+
    then have "set (fst (insertRows s U)) = set s2" using i1 i2 by simp
    moreover have "upsertBlocks s U = Inr (fst (insertRows s U), snd (insertRows s U))"
      using fitU by (simp add: upsertBlocks_accepts)
    ultimately show "\<exists>sU nU. upsertBlocks s U = Inr (sU, nU) \<and> set sU = set s2" by blast
  qed
  show "\<exists>s1 n1 s2 n2.
          upsertBlocks s S1 = Inr (s1, n1) \<and> upsertBlocks s1 S2 = Inr (s2, n2)
        \<and> upsertBlocks s (S1 @ S2) = Inr (s2, n1 + n2)
        \<and> upsertBlocks s (S1 @ filter (\<lambda>r. r \<notin> set S1) S2) = Inr (s2, n1 + n2)
        \<and> (\<exists>ext. s1 = s @ ext \<and> n1 = length ext)
        \<and> upsertBlocks s1 S1 = Inr (s1, 0)
        \<and> ((\<forall>a \<in> set s \<union> set S1 \<union> set S2. \<forall>b \<in> set s \<union> set S1 \<union> set S2.
               conflicts a b \<longrightarrow> a = b) \<and> set U = set S1 \<union> set S2
             \<longrightarrow> (\<exists>sU nU. upsertBlocks s U = Inr (sU, nU) \<and> set sU = set s2))"
    using a b c d e f g by blast
next
  assume "fitsColumns r \<and> x \<in> set s \<and> chainId x = chainId r
        \<and> (number x = number r \<or> hash x = hash r)"
  then show "upsertBlocks s [r] = Inr (s, 0)"
    by (auto simp: upsertBlocks_accepts list_ex_iff conflicts_def)
next
  assume "fitsColumns r \<and> \<not> list_ex (conflicts r) s"
  then show "upsertBlocks s [r] = Inr (s @ [r], 1)"
    by (simp add: upsertBlocks_accepts)
next
  assume n: "\<not> list_all fitsColumns S1"
  show "\<exists>e. upsertBlocks s S1 = Inl e" using n by (simp add: upsertBlocks_rejects)
  show "tableAfter s S1 = s" using n by (rule tableAfter_rejects)
  show "\<exists>e. upsertBlocks s (S1 @ S2) = Inl e" using n by (simp add: upsertBlocks_rejects)
  show "\<exists>e. upsertBlocks s (S2 @ S1) = Inl e" using n by (simp add: upsertBlocks_rejects)
qed

text \<open>The batch write on concrete rows: a fresh row, a repeated height, a repeated hash,
  two overlapping batches, a replay, a reordered union of two collision-free batches, and
  a batch with the height \<open>2 ^ 63\<close> of \<open>blockE\<close>.\<close>

theorem upsertMany_idempotent_witness:
  "upsertBlocks [blockA] [blockB'] = Inr ([blockA, blockB'], 1)
   \<and> upsertBlocks [blockA, blockB] [blockB'] = Inr ([blockA, blockB], 0)
   \<and> upsertBlocks [blockA, blockB] [blockC] = Inr ([blockA, blockB], 0)
   \<and> upsertBlocks [] ([blockA, blockB] @ [blockB, blockC, blockB']) = Inr ([blockA, blockB], 2)
   \<and> upsertBlocks [] ([blockA, blockB] @ filter (\<lambda>r. r \<notin> set [blockA, blockB]) [blockB, blockC, blockB'])
       = Inr ([blockA, blockB], 2)
   \<and> upsertBlocks [blockA, blockB] [blockA, blockB] = Inr ([blockA, blockB], 0)
   \<and> (\<exists>sU nU. upsertBlocks [] [blockD, blockB, blockA, blockB] = Inr (sU, nU)
         \<and> set sU = {blockA, blockB, blockD})
   \<and> tableAfter [blockA] [blockB, blockE] = [blockA]"
proof -
  have fA: "fitsColumns blockA" and fB: "fitsColumns blockB" and fB': "fitsColumns blockB'"
    and fC: "fitsColumns blockC" and fD: "fitsColumns blockD"
    by (simp_all add: fitsColumns_def inInt32_def inInt64_def blockA_def blockB_def blockB'_def
        blockC_def blockD_def)
  have c1: "fitsColumns blockB' \<and> blockB \<in> set [blockA, blockB] \<and> chainId blockB = chainId blockB'
      \<and> (number blockB = number blockB' \<or> hash blockB = hash blockB')"
    using fB' by (simp add: blockB_def blockB'_def)
  have c2: "fitsColumns blockC \<and> blockB \<in> set [blockA, blockB] \<and> chainId blockB = chainId blockC
      \<and> (number blockB = number blockC \<or> hash blockB = hash blockC)"
    using fC by (simp add: blockB_def blockC_def)
  have c3: "fitsColumns blockB' \<and> \<not> list_ex (conflicts blockB') [blockA]"
    using fB' by (simp add: conflicts_def blockA_def blockB'_def)
  have w1: "upsertBlocks [blockA] [blockB'] = Inr ([blockA] @ [blockB'], 1)"
    using c3 upsertMany_idempotent [of "[]" "[]" "[blockA]" "[]" blockB' blockA] by blast
  have w2: "upsertBlocks [blockA, blockB] [blockB'] = Inr ([blockA, blockB], 0)"
    using c1 upsertMany_idempotent [of "[]" "[]" "[blockA, blockB]" "[]" blockB' blockB] by blast
  have w3: "upsertBlocks [blockA, blockB] [blockC] = Inr ([blockA, blockB], 0)"
    using c2 upsertMany_idempotent [of "[]" "[]" "[blockA, blockB]" "[]" blockC blockB] by blast
  have first: "upsertBlocks [] [blockA, blockB] = Inr ([blockA, blockB], 2)"
    using fA fB by (simp add: upsertBlocks_accepts conflicts_def blockA_def blockB_def)
  have second: "upsertBlocks [blockA, blockB] [blockB, blockC, blockB'] = Inr ([blockA, blockB], 0)"
    using fB fC fB'
    by (simp add: upsertBlocks_accepts conflicts_def blockA_def blockB_def blockC_def blockB'_def)
  have fits1: "list_all fitsColumns [blockA, blockB] \<and> list_all fitsColumns [blockB, blockC, blockB']"
    using fA fB fC fB' by simp
  obtain s1 n1 s2 n2 where
    j1: "upsertBlocks [] [blockA, blockB] = Inr (s1, n1)"
    and j2: "upsertBlocks s1 [blockB, blockC, blockB'] = Inr (s2, n2)"
    and j3: "upsertBlocks [] ([blockA, blockB] @ [blockB, blockC, blockB']) = Inr (s2, n1 + n2)"
    and j4: "upsertBlocks [] ([blockA, blockB] @ filter (\<lambda>r. r \<notin> set [blockA, blockB])
               [blockB, blockC, blockB']) = Inr (s2, n1 + n2)"
    and j5: "upsertBlocks s1 [blockA, blockB] = Inr (s1, 0)"
    using fits1
      upsertMany_idempotent [of "[blockA, blockB]" "[blockB, blockC, blockB']" "[]" "[]"
        blockA blockA]
    by blast
  have s1: "s1 = [blockA, blockB] \<and> n1 = 2" using j1 first by simp
  then have s2: "s2 = [blockA, blockB] \<and> n2 = 0" using j2 second by simp
  have w4: "upsertBlocks [] ([blockA, blockB] @ [blockB, blockC, blockB']) = Inr ([blockA, blockB], 2)"
    using j3 s1 s2 by simp
  have w5: "upsertBlocks [] ([blockA, blockB] @ filter (\<lambda>r. r \<notin> set [blockA, blockB])
               [blockB, blockC, blockB']) = Inr ([blockA, blockB], 2)"
    using j4 s1 s2 by simp
  have w6: "upsertBlocks [blockA, blockB] [blockA, blockB] = Inr ([blockA, blockB], 0)"
    using j5 s1 by simp
  have fits2: "list_all fitsColumns [blockA, blockB] \<and> list_all fitsColumns [blockB, blockD]"
    using fA fB fD by simp
  have c4: "(\<forall>a \<in> set [] \<union> set [blockA, blockB] \<union> set [blockB, blockD].
             \<forall>b \<in> set [] \<union> set [blockA, blockB] \<union> set [blockB, blockD]. conflicts a b \<longrightarrow> a = b)
      \<and> set [blockD, blockB, blockA, blockB] = set [blockA, blockB] \<union> set [blockB, blockD]"
    by (auto simp: conflicts_def blockA_def blockB_def blockD_def)
  have third: "upsertBlocks [blockA, blockB] [blockB, blockD] = Inr ([blockA, blockB, blockD], 1)"
    using fB fD
    by (simp add: upsertBlocks_accepts conflicts_def blockA_def blockB_def blockD_def)
  obtain t1 m1 t2 m2 where
    k1: "upsertBlocks [] [blockA, blockB] = Inr (t1, m1)"
    and k2: "upsertBlocks t1 [blockB, blockD] = Inr (t2, m2)"
    and k3: "\<exists>sU nU. upsertBlocks [] [blockD, blockB, blockA, blockB] = Inr (sU, nU) \<and> set sU = set t2"
    using fits2 c4
      upsertMany_idempotent [of "[blockA, blockB]" "[blockB, blockD]" "[]"
        "[blockD, blockB, blockA, blockB]" blockA blockA]
    by blast
  have "t1 = [blockA, blockB]" using k1 first by simp
  then have "t2 = [blockA, blockB, blockD]" using k2 third by simp
  then have w7: "\<exists>sU nU. upsertBlocks [] [blockD, blockB, blockA, blockB] = Inr (sU, nU)
         \<and> set sU = {blockA, blockB, blockD}"
    using k3 by auto
  have bad: "\<not> list_all fitsColumns [blockB, blockE]"
    by (simp add: fitsColumns_def inInt64_def blockE_def)
  have w8: "tableAfter [blockA] [blockB, blockE] = [blockA]"
    using bad
      upsertMany_idempotent [of "[blockB, blockE]" "[]"
        "[blockA]" "[]" blockA blockA]
    by blast
  show ?thesis using w1 w2 w3 w4 w5 w6 w7 w8 by simp
qed

text \<open>Two writes on concrete rows: the stored header of height 8001 survives a later
  batch that offers another header for the same height.\<close>

theorem upsert_never_rewrites_witness:
  "byNumber sameKey (upsertSeq [blockA, blockB] [ [blockB'], [blockC] ]) 2 8001 = Inr (Some blockB)
   \<and> (\<exists>l'. getLatest (upsertSeq [blockA, blockB] [ [blockB'], [blockC] ]) 2 = Some l'
          \<and> number blockB \<le> number l')"
proof -
  have b: "byNumber sameKey [blockA, blockB] 2 8001 = Inr (Some blockB)"
    by (simp add: byNumber_def chainIdArg_def numberArg_def inInt32_def rowAt_def
        blockA_def blockB_def)
  have l: "getLatest [blockA, blockB] 2 = Some blockB"
    by (simp add: getLatest_def higher_def blockA_def blockB_def)
  show ?thesis
    using b l upsert_never_rewrites [where s = "[blockA, blockB]" and bs = "[ [blockB'], [blockC] ]"
        and enc = sameKey and c = 2 and n = 8001 and h = blockB and l = blockB]
    by blast
qed

section \<open>Properties of gap detection\<close>

lemma pushRange_eq:
  "pushRange limit n e m = m @ take (limit - length m) [n..e]"
proof (induction limit n e m rule: pushRange.induct)
  case (1 limit n e m)
  show ?case
  proof (cases "n \<le> e \<and> length m < limit")
    case True
    then have "pushRange limit n e m = pushRange limit (n + 1) e (m @ [n])"
      by (subst pushRange.simps) simp
    also have "\<dots> = (m @ [n]) @ take (limit - length (m @ [n])) [n + 1..e]"
      using "1.IH" True by simp
    also have "\<dots> = m @ take (limit - length m) (n # [n + 1..e])"
    proof -
      obtain k where k: "limit - length m = Suc k"
        using True by (cases "limit - length m") auto
      then have "limit - length (m @ [n]) = k" by simp
      then show ?thesis using k by simp
    qed
    also have "n # [n + 1..e] = [n..e]"
      using True by (simp add: upto_rec1)
    finally show ?thesis .
  next
    case False
    then have "pushRange limit n e m = m"
      by (subst pushRange.simps) (simp only: if_False)
    moreover have "take (limit - length m) [n..e] = []"
      using False by auto
    ultimately show ?thesis by simp
  qed
qed

lemma collectMissing_eq:
  "collectMissing limit rs m = m @ take (limit - length m) (concat (map heightRange rs))"
proof (induction rs arbitrary: m)
  case Nil
  then show ?case by simp
next
  case (Cons r rs)
  obtain a b where r: "r = (a, b)" by (cases r)
  let ?m' = "m @ take (limit - length m) [a..b]"
  show ?case
  proof (cases "limit \<le> length ?m'")
    case True
    then have t: "take (limit - length m) ([a..b] @ concat (map heightRange rs))
                 = take (limit - length m) [a..b]"
      by auto
    have pm: "pushRange limit a b m = ?m'" by (rule pushRange_eq)
    have "collectMissing limit (r # rs) m = ?m'"
      using True by (simp only: r collectMissing.simps pm Let_def if_True)
    then show ?thesis using t r by simp
  next
    case False
    then have short: "length [a..b] < limit - length m" by auto
    have pm: "pushRange limit a b m = ?m'" by (rule pushRange_eq)
    have "collectMissing limit (r # rs) m = collectMissing limit rs ?m'"
      using False by (simp only: r collectMissing.simps pm Let_def if_False)
    also have "\<dots> = ?m' @ take (limit - length ?m') (concat (map heightRange rs))"
      by (rule Cons.IH)
    finally show ?thesis using short r by (simp add: min_def)
  qed
qed

lemma take_concat_take:
  "j \<le> n \<Longrightarrow> (\<forall>x \<in> set xss. x \<noteq> []) \<Longrightarrow>
     take j (concat (take n xss)) = take j (concat xss)"
proof (induction xss arbitrary: j n)
  case Nil
  then show ?case by simp
next
  case (Cons x xss)
  show ?case
  proof (cases n)
    case 0
    then show ?thesis using Cons.prems by simp
  next
    case (Suc k)
    have x: "x \<noteq> []" using Cons.prems by simp
    then have "j - length x \<le> k" using Cons.prems Suc by (cases x) auto
    then have "take (j - length x) (concat (take k xss)) = take (j - length x) (concat xss)"
      using Cons.IH Cons.prems by simp
    then show ?thesis using Suc by simp
  qed
qed

lemma gap_rows_nonempty:
  "\<forall>x \<in> set (map heightRange (List.map_filter gapOf ps)). x \<noteq> []"
proof -
  have "gapOf p = Some g \<Longrightarrow> heightRange g \<noteq> []" for p g
    by (cases p rule: gapOf.cases) (auto split: if_splits)
  then show ?thesis by (auto simp: List.map_filter_def)
qed

lemma gaps_of_sorted:
  "sorted ns \<Longrightarrow> ns \<noteq> [] \<Longrightarrow>
     concat (map heightRange (List.map_filter gapOf (lead ns)))
       = filter (\<lambda>n. n \<notin> set ns) [hd ns .. last ns]"
proof (induction ns rule: lead.induct)
  case 1
  then show ?case by simp
next
  case (2 a)
  then show ?case by (simp add: upto_rec1)
next
  case (3 a b xs)
  have ab: "a \<le> b" and sb: "sorted (b # xs)" using "3.prems" by auto
  have ge: "\<forall>x \<in> set (b # xs). b \<le> x" using sb by auto
  have bl: "b \<le> last (b # xs)" using ge last_in_set [of "b # xs"] by blast
  have IH: "concat (map heightRange (List.map_filter gapOf (lead (b # xs))))
              = filter (\<lambda>n. n \<notin> set (b # xs)) [hd (b # xs) .. last (b # xs)]"
    using "3.IH" sb by simp
  have split: "[a .. last (b # xs)] = [a .. b - 1] @ [b .. last (b # xs)]"
    using ab bl by (rule upto_split1)
  have left: "filter (\<lambda>n. n \<notin> set (a # b # xs)) [a .. b - 1] = [a + 1 .. b - 1]"
  proof (cases "a < b")
    case True
    then have u: "[a .. b - 1] = a # [a + 1 .. b - 1]" by (simp add: upto_rec1)
    have "\<forall>n \<in> set [a + 1 .. b - 1]. n \<notin> set (a # b # xs)"
      using ge by auto
    then have "filter (\<lambda>n. n \<notin> set (a # b # xs)) [a + 1 .. b - 1] = [a + 1 .. b - 1]"
      by (simp only: filter_True)
    then show ?thesis unfolding u by simp
  next
    case False
    then show ?thesis using ab by simp
  qed
  have right: "filter (\<lambda>n. n \<notin> set (a # b # xs)) [b .. last (b # xs)]
                 = filter (\<lambda>n. n \<notin> set (b # xs)) [b .. last (b # xs)]"
    using ab by (intro filter_cong) auto
  have head: "concat (map heightRange (List.map_filter gapOf [(a, Some b)]))
                = [a + 1 .. b - 1]"
    by simp
  have "concat (map heightRange (List.map_filter gapOf (lead (a # b # xs))))
          = [a + 1 .. b - 1] @ concat (map heightRange (List.map_filter gapOf (lead (b # xs))))"
    by simp
  also have "\<dots> = [a + 1 .. b - 1] @ filter (\<lambda>n. n \<notin> set (b # xs)) [b .. last (b # xs)]"
    using IH by simp
  also have "\<dots> = filter (\<lambda>n. n \<notin> set (a # b # xs)) [a .. last (b # xs)]"
    unfolding split filter_append left right ..
  finally show ?case by simp
qed

lemma number_lower: "number (lower b r) = min (number b) (number r)"
  by (simp add: lower_def min_def)

lemma number_higher: "number (higher b r) = max (number b) (number r)"
  by (simp add: higher_def max_def)

lemma number_foldl_lower:
  "number (foldl lower x xs) = Min (set (map number (x # xs)))"
proof -
  have "number (foldl lower x xs) = fold min (map number xs) (number x)"
    by (induction xs arbitrary: x) (simp_all add: number_lower min.commute)
  then show ?thesis by (simp only: list.map Min.set_eq_fold)
qed

lemma number_foldl_higher:
  "number (foldl higher x xs) = Max (set (map number (x # xs)))"
proof -
  have "number (foldl higher x xs) = fold max (map number xs) (number x)"
    by (induction xs arbitrary: x) (simp_all add: number_higher max.commute)
  then show ?thesis by (simp only: list.map Max.set_eq_fold)
qed

lemma getFirst_Min:
  "getFirst s c = Some f \<Longrightarrow> number f = Min (set (storedHeights s c))"
  by (auto simp: getFirst_def storedHeights_def number_foldl_lower split: list.splits
           simp del: set_map list.map)

lemma getLatest_Max:
  "getLatest s c = Some l \<Longrightarrow> number l = Max (set (storedHeights s c))"
  by (auto simp: getLatest_def storedHeights_def number_foldl_higher split: list.splits
           simp del: set_map list.map)

lemma getFirst_None: "getFirst s c = None \<longleftrightarrow> storedHeights s c = []"
  by (auto simp: getFirst_def storedHeights_def split: list.splits)

lemma getLatest_None: "getLatest s c = None \<longleftrightarrow> storedHeights s c = []"
  by (auto simp: getLatest_def storedHeights_def split: list.splits)

lemma sorted_hd_is_Min: "sorted ns \<Longrightarrow> ns \<noteq> [] \<Longrightarrow> hd ns = Min (set ns)"
  by (cases ns) (auto intro!: Min_eqI [symmetric])

lemma sorted_last_is_Max: "sorted ns \<Longrightarrow> ns \<noteq> [] \<Longrightarrow> last ns = Max (set ns)"
proof (induction ns)
  case Nil
  then show ?case by simp
next
  case (Cons a ns)
  show ?case
  proof (cases "ns = []")
    case True
    then show ?thesis by simp
  next
    case False
    then have "last ns = Max (set ns)" using Cons by simp
    moreover have "a \<le> Max (set ns)"
      using Cons.prems False by (meson List.finite_set Max_ge last_in_set order_trans sorted_simps(2) calculation)
    ultimately show ?thesis using False by (simp add: max_def)
  qed
qed

lemma open_interval_filter:
  fixes lo hi :: int
  assumes "lo \<in> H" "hi \<in> H" "lo \<le> hi"
  shows "filter (\<lambda>n. n \<notin> H) [lo .. hi] = filter (\<lambda>n. n \<notin> H) [lo + 1 .. hi - 1]"
proof (cases "lo = hi")
  case True
  then show ?thesis using assms by (simp add: upto_rec1)
next
  case False
  then have lt: "lo < hi" using assms by simp
  have "[lo .. hi] = lo # [lo + 1 .. hi]" using lt by (simp add: upto_rec1)
  also have "[lo + 1 .. hi] = [lo + 1 .. hi - 1] @ [hi]" using lt by (simp add: upto_rec2)
  finally show ?thesis using assms by simp
qed

lemma findMissingLimit_eq:
  "findMissingLimit limit s c = take limit (missingHeights s c)"
proof (cases "storedHeights s c = []")
  case True
  then have "getFirst s c = None" by (simp add: getFirst_None)
  then show ?thesis using True by (simp add: findMissingLimit_def missingHeights_def)
next
  case False
  define hs where "hs = storedHeights s c"
  define lo where "lo = Min (set hs)"
  define hi where "hi = Max (set hs)"
  have ne: "hs \<noteq> []" using False hs_def by simp
  obtain f l where f: "getFirst s c = Some f" and l: "getLatest s c = Some l"
    using False getFirst_None [of s c] getLatest_None [of s c] by auto
  have nf: "number f = lo" using getFirst_Min [OF f] by (simp add: lo_def hs_def)
  have nl: "number l = hi" using getLatest_Max [OF l] by (simp add: hi_def hs_def)
  have lo_in: "lo \<in> set hs" unfolding lo_def using ne by (intro Min_in) auto
  have hi_in: "hi \<in> set hs" unfolding hi_def using ne by (intro Max_in) auto
  have bounds: "\<forall>n \<in> set hs. lo \<le> n \<and> n \<le> hi"
    unfolding lo_def hi_def by auto
  have le: "lo \<le> hi" using bounds lo_in by blast
  have "filter (\<lambda>b. chainId b = c \<and> lo \<le> number b \<and> number b \<le> hi) s
          = filter (\<lambda>r. chainId r = c) s"
    using bounds by (intro filter_cong) (auto simp: hs_def storedHeights_def)
  then have ord: "ordered s c lo hi = lead (sort hs)"
    by (simp add: ordered_def hs_def storedHeights_def)
  let ?G = "List.map_filter gapOf (lead (sort hs))"
  have sne: "sort hs \<noteq> []" using ne by (metis length_sort length_0_conv)
  have "findMissingLimit limit s c = collectMissing limit (take limit ?G) []"
    using f l nf nl le ord by (simp add: findMissingLimit_def queryRanges_def)
  also have "\<dots> = take limit (concat (map heightRange (take limit ?G)))"
    by (simp add: collectMissing_eq)
  also have "\<dots> = take limit (concat (take limit (map heightRange ?G)))"
    by (simp only: take_map)
  also have "\<dots> = take limit (concat (map heightRange ?G))"
    using gap_rows_nonempty by (intro take_concat_take) auto
  also have "concat (map heightRange ?G)
               = filter (\<lambda>n. n \<notin> set (sort hs)) [hd (sort hs) .. last (sort hs)]"
    using sne by (intro gaps_of_sorted) auto
  also have "\<dots> = filter (\<lambda>n. n \<notin> set hs) [lo .. hi]"
    using sne by (simp add: sorted_hd_is_Min sorted_last_is_Max lo_def hi_def)
  also have "\<dots> = filter (\<lambda>n. n \<notin> set hs) [lo + 1 .. hi - 1]"
    using lo_in hi_in le by (rule open_interval_filter)
  also have "\<dots> = missingHeights s c"
    using ne by (simp add: missingHeights_def hs_def lo_def hi_def Let_def)
  finally show ?thesis .
qed

lemma storedHeights_append:
  "storedHeights (s @ t) c = storedHeights s c @ storedHeights t c"
  by (simp add: storedHeights_def)

lemma storedHeights_island: "storedHeights (island c a b) c = [a..b]"
proof -
  have "filter (\<lambda>r. chainId r = c) (map (mockBlock c) xs) = map (mockBlock c) xs" for xs
    by (induction xs) (simp_all add: mockBlock_def)
  moreover have "map number (map (mockBlock c) xs) = xs" for xs
    by (induction xs) (simp_all add: mockBlock_def)
  ultimately show ?thesis by (simp add: storedHeights_def island_def)
qed

lemma sorted_missingHeights: "sorted_wrt (<) (missingHeights s c)"
  by (simp add: missingHeights_def Let_def sorted_wrt_filter)

lemma upto_cut:
  fixes i j k :: int
  shows "i \<le> j \<Longrightarrow> j < k \<Longrightarrow> j' = j + 1 \<Longrightarrow> [i..k] = [i..j] @ [j'..k]"
  using upto_split2 [of i j k] by simp

lemma take_exact: "length xs = n \<Longrightarrow> take n (xs @ ys) = xs"
  by simp

lemma missingHeights_manyHoles:
  "take 10 (missingHeights manyHoles 99) = [3011..3020]"
proof -
  let ?H = "{3000..3010} \<union> {3050..3060} \<union> {3100..3110::int}"
  have hs: "storedHeights manyHoles 99 = [3000..3010] @ [3050..3060] @ [3100..3110]"
    by (simp only: manyHoles_def storedHeights_append storedHeights_island)
  have st: "set (storedHeights manyHoles 99) = ?H"
    by (simp only: hs set_append set_upto Un_assoc)
  have ne: "storedHeights manyHoles 99 \<noteq> []"
    using st by auto
  have lo: "Min ?H = 3000" by (intro Min_eqI) auto
  have hi: "Max ?H = 3110" by (intro Max_eqI) auto
  have m: "missingHeights manyHoles 99 = filter (\<lambda>n. n \<notin> ?H) [3001..3109]"
    using ne by (simp add: missingHeights_def Let_def st lo hi)
  have s1: "[3001..3109::int] = [3001..3010] @ [3011..3109]"
    by (rule upto_cut) simp_all
  have s2: "[3011..3109::int] = [3011..3020] @ [3021..3109]"
    by (rule upto_cut) simp_all
  have sp: "[3001..3109::int] = [3001..3010] @ [3011..3020] @ [3021..3109]"
    by (simp only: s1 s2)
  have a: "filter (\<lambda>n. n \<notin> ?H) [3001..3010] = []"
    by (simp only: filter_empty_conv set_upto) auto
  have b: "filter (\<lambda>n. n \<notin> ?H) [3011..3020] = [3011..3020]"
    by (simp only: filter_id_conv set_upto) auto
  show ?thesis unfolding m sp filter_append a b append_Nil
    by (rule take_exact) simp
qed

lemma missingHeights_blocksWithHoles:
  "missingHeights blocksWithHoles 3 = [10006..10009] @ [10016..10019]"
proof -
  let ?H = "{10000..10005} \<union> {10010..10015} \<union> {10020..10025::int}"
  have hs: "storedHeights blocksWithHoles 3 = [10000..10005] @ [10010..10015] @ [10020..10025]"
    by (simp only: blocksWithHoles_def storedHeights_append storedHeights_island)
  have st: "set (storedHeights blocksWithHoles 3) = ?H"
    by (simp only: hs set_append set_upto Un_assoc)
  have ne: "storedHeights blocksWithHoles 3 \<noteq> []"
    using st by auto
  have lo: "Min ?H = 10000" by (intro Min_eqI) auto
  have hi: "Max ?H = 10025" by (intro Max_eqI) auto
  have m: "missingHeights blocksWithHoles 3 = filter (\<lambda>n. n \<notin> ?H) [10001..10024]"
    using ne by (simp add: missingHeights_def Let_def st lo hi)
  have s1: "[10001..10024::int] = [10001..10005] @ [10006..10024]"
    by (rule upto_cut) simp_all
  have s2: "[10006..10024::int] = [10006..10009] @ [10010..10024]"
    by (rule upto_cut) simp_all
  have s3: "[10010..10024::int] = [10010..10015] @ [10016..10024]"
    by (rule upto_cut) simp_all
  have s4: "[10016..10024::int] = [10016..10019] @ [10020..10024]"
    by (rule upto_cut) simp_all
  have sp: "[10001..10024::int] = [10001..10005] @ [10006..10009] @ [10010..10015] @ [10016..10019] @ [10020..10024]"
    by (simp only: s1 s2 s3 s4)
  have a: "filter (\<lambda>n. n \<notin> ?H) [10001..10005] = []"
    by (simp only: filter_empty_conv set_upto) auto
  have b: "filter (\<lambda>n. n \<notin> ?H) [10006..10009] = [10006..10009]"
    by (simp only: filter_id_conv set_upto) auto
  have c: "filter (\<lambda>n. n \<notin> ?H) [10010..10015] = []"
    by (simp only: filter_empty_conv set_upto) auto
  have d: "filter (\<lambda>n. n \<notin> ?H) [10016..10019] = [10016..10019]"
    by (simp only: filter_id_conv set_upto) auto
  have e: "filter (\<lambda>n. n \<notin> ?H) [10020..10024] = []"
    by (simp only: filter_empty_conv set_upto) auto
  show ?thesis unfolding m sp filter_append a b c d e by (simp only: append_Nil append_Nil2)
qed

text \<open>
  Claim C2 (gap output bounded). \<open>findMissingFullRange\<close> is the gap scan with limit 10.
  For every limit the returned sequence has at most \<open>limit\<close> heights, is strictly
  ascending, and every returned height lies strictly between the heights of the first and
  the last stored row of the chain, which are the least and the greatest stored height;
  for a chain with no stored rows the result is empty.
\<close>

theorem findMissing_bounded:
  "findMissingFullRange s c = findMissingLimit 10 s c
   \<and> length (findMissingLimit limit s c) \<le> limit
   \<and> sorted_wrt (<) (findMissingLimit limit s c)
   \<and> (\<forall>n \<in> set (findMissingLimit limit s c).
         \<exists>f l. getFirst s c = Some f \<and> getLatest s c = Some l \<and> number f < n \<and> n < number l)
   \<and> (\<forall>f l. getFirst s c = Some f \<and> getLatest s c = Some l \<longrightarrow>
         (\<forall>r \<in> set s. chainId r = c \<longrightarrow> number f \<le> number r \<and> number r \<le> number l))
   \<and> ((\<forall>r \<in> set s. chainId r \<noteq> c) \<longrightarrow> findMissingLimit limit s c = [])"
proof -
  let ?hs = "storedHeights s c"
  have eq: "findMissingLimit limit s c = take limit (missingHeights s c)"
    by (rule findMissingLimit_eq)
  have len: "length (findMissingLimit limit s c) \<le> limit"
    unfolding eq by simp
  have asc: "sorted_wrt (<) (findMissingLimit limit s c)"
    unfolding eq by (intro sorted_wrt_take sorted_missingHeights)
  have inside: "\<forall>n \<in> set (findMissingLimit limit s c).
         \<exists>f l. getFirst s c = Some f \<and> getLatest s c = Some l \<and> number f < n \<and> n < number l"
  proof
    fix n assume "n \<in> set (findMissingLimit limit s c)"
    then have n: "n \<in> set (missingHeights s c)"
      unfolding eq by (rule in_set_takeD)
    then have ne: "?hs \<noteq> []" by (auto simp: missingHeights_def)
    then obtain f l where f: "getFirst s c = Some f" and l: "getLatest s c = Some l"
      using getFirst_None [of s c] getLatest_None [of s c] by auto
    have "Min (set ?hs) < n \<and> n < Max (set ?hs)"
      using n ne by (auto simp: missingHeights_def Let_def)
    then show "\<exists>f l. getFirst s c = Some f \<and> getLatest s c = Some l \<and> number f < n \<and> n < number l"
      using f l getFirst_Min [OF f] getLatest_Max [OF l] by auto
  qed
  have ext: "\<forall>f l. getFirst s c = Some f \<and> getLatest s c = Some l \<longrightarrow>
         (\<forall>r \<in> set s. chainId r = c \<longrightarrow> number f \<le> number r \<and> number r \<le> number l)"
  proof (intro allI impI ballI)
    fix f l r
    assume fl: "getFirst s c = Some f \<and> getLatest s c = Some l" and r: "r \<in> set s" "chainId r = c"
    have "number r \<in> set ?hs" using r by (auto simp: storedHeights_def)
    then have "Min (set ?hs) \<le> number r \<and> number r \<le> Max (set ?hs)" by auto
    then show "number f \<le> number r \<and> number r \<le> number l"
      using fl getFirst_Min [of s c f] getLatest_Max [of s c l] by auto
  qed
  have empty: "(\<forall>r \<in> set s. chainId r \<noteq> c) \<longrightarrow> findMissingLimit limit s c = []"
  proof
    assume "\<forall>r \<in> set s. chainId r \<noteq> c"
    then have "?hs = []" by (auto simp: storedHeights_def filter_empty_conv)
    then show "findMissingLimit limit s c = []"
      unfolding eq by (simp add: missingHeights_def)
  qed
  have link: "findMissingFullRange s c = findMissingLimit 10 s c"
    by (simp add: findMissingFullRange_def)
  show ?thesis
    by (intro conjI) (rule link len asc inside ext empty)+
qed

text \<open>
  Claim C3 (gap output complete within the cap). With \<open>K\<close> the number of heights missing
  strictly inside \<open>(first, last)\<close>, the gap scan returns the \<open>min K limit\<close> smallest of
  them in ascending order: a prefix of the ascending list of all missing heights, and the
  whole list when \<open>K \<le> limit\<close>. On the islands 3000..3010, 3050..3060, 3100..3110 with
  limit 10 the result is 3011..3020.
\<close>

theorem findMissing_complete:
  "findMissingLimit limit s c
     = take (min (length (missingHeights s c)) limit) (missingHeights s c)
   \<and> findMissingFullRange s c
     = take (min (length (missingHeights s c)) 10) (missingHeights s c)
   \<and> sorted_wrt (<) (missingHeights s c)
   \<and> (length (missingHeights s c) \<le> limit \<longrightarrow> findMissingLimit limit s c = missingHeights s c)
   \<and> findMissingFullRange manyHoles 99 = [3011..3020]"
proof -
  have eq: "findMissingLimit k s c = take k (missingHeights s c)" for k
    by (rule findMissingLimit_eq)
  have t: "take (min (length xs) k) xs = take k xs" for k and xs :: "int list"
    by (simp add: min_def)
  have a: "findMissingLimit limit s c
     = take (min (length (missingHeights s c)) limit) (missingHeights s c)"
    by (simp only: eq t)
  have b: "findMissingFullRange s c
     = take (min (length (missingHeights s c)) 10) (missingHeights s c)"
    by (simp only: findMissingFullRange_def eq t)
  have d: "length (missingHeights s c) \<le> limit \<longrightarrow> findMissingLimit limit s c = missingHeights s c"
    by (simp add: eq)
  have ex: "findMissingFullRange manyHoles 99 = [3011..3020]"
    by (simp only: findMissingFullRange_def findMissingLimit_eq missingHeights_manyHoles)
  show ?thesis
    by (intro conjI) (rule a b d ex sorted_missingHeights)+
qed

lemma chainId_island: "r \<in> set (island c a b) \<Longrightarrow> chainId r = c"
  by (auto simp: island_def mockBlock_def)

lemma length_missing_blocksWithHoles: "length (missingHeights blocksWithHoles 3) = 8"
  by (simp add: missingHeights_blocksWithHoles)

text \<open>Islands 10000..10005, 10010..10015, 10020..10025: eight heights are missing and
  all eight are returned.\<close>

theorem findMissing_complete_witness:
  "length (missingHeights blocksWithHoles 3) \<le> 10
   \<and> findMissingLimit 10 blocksWithHoles 3 = [10006..10009] @ [10016..10019]"
proof -
  have h: "length (missingHeights blocksWithHoles 3) \<le> 10"
    by (simp add: length_missing_blocksWithHoles)
  have "findMissingLimit 10 blocksWithHoles 3 = missingHeights blocksWithHoles 3"
    using h findMissing_complete [of 10 blocksWithHoles 3] by blast
  then have "findMissingLimit 10 blocksWithHoles 3 = [10006..10009] @ [10016..10019]"
    by (simp only: missingHeights_blocksWithHoles)
  then show ?thesis using h by blast
qed

text \<open>The same islands: chain 999 has no rows and yields no heights; height 10006 is
  returned for chain 3 and lies strictly between the first and the last stored height.\<close>

theorem findMissing_bounded_witness:
  "filter (\<lambda>r. chainId r = 999) blocksWithHoles = []
   \<and> findMissingLimit 10 blocksWithHoles 999 = []
   \<and> 10006 \<in> set (findMissingLimit 10 blocksWithHoles 3)
   \<and> (\<exists>f l. getFirst blocksWithHoles 3 = Some f \<and> getLatest blocksWithHoles 3 = Some l
          \<and> number f < 10006 \<and> 10006 < number l)"
proof -
  have h: "\<forall>r \<in> set blocksWithHoles. chainId r \<noteq> 999"
    by (auto simp: blocksWithHoles_def dest: chainId_island)
  have "findMissingLimit 10 blocksWithHoles 3 = take 10 ([10006..10009] @ [10016..10019])"
    by (simp only: findMissingLimit_eq missingHeights_blocksWithHoles)
  then have m: "10006 \<in> set (findMissingLimit 10 blocksWithHoles 3)"
    by (simp add: upto_rec1)
  have e: "filter (\<lambda>r. chainId r = 999) blocksWithHoles = []"
    using h by (simp add: filter_empty_conv)
  show ?thesis
    using e h m findMissing_bounded [of blocksWithHoles 999 10]
      findMissing_bounded [of blocksWithHoles 3 10]
    by blast
qed

section \<open>Properties of the conversion to a JavaScript number\<close>

lemma excessBits_small: "n < 2 ^ 53 \<Longrightarrow> excessBits n = 0"
  by (subst excessBits.simps) simp

lemma excessBits_step: "\<not> n < 2 ^ 53 \<Longrightarrow> excessBits n = Suc (excessBits (n div 2))"
  by (subst excessBits.simps) simp

lemma roundNat_exact: "n \<le> 2 ^ 53 \<Longrightarrow> roundNat n = n"
proof (cases "n < 2 ^ 53")
  case True
  then show ?thesis by (simp add: roundNat_def excessBits_small)
next
  case False
  assume "n \<le> 2 ^ 53"
  then have n: "n = 2 ^ 53" using False by simp
  have "excessBits n = 1"
    unfolding n by (simp add: excessBits_step excessBits_small)
  then show ?thesis unfolding n by (simp add: roundNat_def Let_def)
qed

lemma toNumber_exact: "\<bar>i\<bar> \<le> 2 ^ 53 \<Longrightarrow> toNumber i = i"
proof -
  assume a: "\<bar>i\<bar> \<le> 2 ^ 53"
  have "nat \<bar>i\<bar> \<le> 2 ^ 53" using a by (simp add: nat_le_iff)
  then have "roundNat (nat \<bar>i\<bar>) = nat \<bar>i\<bar>" by (rule roundNat_exact)
  then show ?thesis by (auto simp: toNumber_def abs_if split: if_splits)
qed

section \<open>Properties of the scheduler\<close>

lemma insertRows_subset:
  "\<exists>ext. fst (insertRows s xs) = s @ ext \<and> set ext \<subseteq> set xs"
proof (induction xs arbitrary: s)
  case Nil
  then show ?case by simp
next
  case (Cons r rs)
  show ?case
  proof (cases "list_ex (conflicts r) s")
    case True
    then show ?thesis using Cons.IH [of s] by auto
  next
    case False
    obtain ext where e: "fst (insertRows (s @ [r]) rs) = (s @ [r]) @ ext" "set ext \<subseteq> set rs"
      using Cons.IH [of "s @ [r]"] by blast
    have "fst (insertRows s (r # rs)) = s @ (r # ext)"
      using False e by (simp add: split_beta)
    moreover have "set (r # ext) \<subseteq> set (r # rs)" using e by auto
    ultimately show ?thesis by blast
  qed
qed

lemma storeUpsert_written:
  assumes "storeUpsert E w rows = Inr w'"
  shows "w' = w\<lparr>db := fst (insertRows (db w) rows)\<rparr>"
proof -
  obtain s' n where u: "upsertBlocks (db w) rows = Inr (s', n)" and w': "w' = w\<lparr>db := s'\<rparr>"
    using assms by (auto simp: storeUpsert_def split: option.splits sum.splits)
  have "insertRows (db w) rows = (s', n)" using upsertBlocks_Inr [OF u] by simp
  then show ?thesis using w' by simp
qed

lemma storeUpsert_Inr:
  assumes "storeUpsert E w rows = Inr w'"
  shows "\<exists>ext. db w' = db w @ ext \<and> set ext \<subseteq> set rows \<and> logger w' = logger w"
proof -
  obtain ext where "fst (insertRows (db w) rows) = db w @ ext" "set ext \<subseteq> set rows"
    using insertRows_subset by blast
  then show ?thesis using storeUpsert_written [OF assms] by simp
qed

lemma storeUpsert_covers:
  assumes "storeUpsert E w rows = Inr w'" "r \<in> set rows"
  shows "list_ex (conflicts r) (db w')"
  using storeUpsert_written [OF assms(1)] assms(2) by (simp add: insertRows_covers)

lemma storeUpsert_accepts:
  assumes "storeFault E rows = None" "list_all fitsColumns rows"
  shows "\<exists>w'. storeUpsert E w rows = Inr w'"
  using assms by (simp add: storeUpsert_def upsertBlocks_accepts split_beta)










lemma promiseAll_Inr:
  "promiseAll (map f xs) = Inr bs \<Longrightarrow> x \<in> set xs \<Longrightarrow> \<exists>y. f x = Inr y \<and> y \<in> set bs"
proof (induction xs arbitrary: bs)
  case Nil
  then show ?case by simp
next
  case (Cons a as)
  obtain y where y: "f a = Inr y"
    using Cons.prems(1) by (cases "f a") auto
  then obtain ys where ys: "promiseAll (map f as) = Inr ys" and bs: "bs = y # ys"
    using Cons.prems(1) by (auto split: sum.splits)
  show ?case
  proof (cases "x = a")
    case True
    then show ?thesis using y bs by simp
  next
    case False
    then have "x \<in> set as" using Cons.prems(2) by simp
    then show ?thesis using Cons.IH [OF ys] bs by auto
  qed
qed

lemma promiseAll_resolves:
  "(\<forall>x \<in> set xs. f x = Inr (g x)) \<Longrightarrow> promiseAll (map f xs) = Inr (map g xs)"
  by (induction xs) simp_all

lemma mapBlocks_Inr:
  "mapBlocks c bs = Inr rows \<Longrightarrow> None \<notin> set bs \<and> (\<forall>r \<in> set rows. chainId r = c)"
proof (induction c bs arbitrary: rows rule: mapBlocks.induct)
  case (1 c)
  then show ?case by simp
next
  case (2 c bs)
  then show ?case by simp
next
  case (3 c b bs)
  then obtain rs where rs: "mapBlocks c bs = Inr rs" and rows: "rows = mapped c b # rs"
    by (auto split: sum.splits)
  then show ?case using "3.IH" [OF rs] by (auto simp: mapped_def)
qed

lemma mapBlocks_Some: "mapBlocks c (map Some bs) = Inr (map (mapped c) bs)"
  by (induction bs) simp_all

lemma findMissing_needs_rows:
  "n \<in> set (findMissingFullRange s c) \<Longrightarrow> getLatest s c \<noteq> None"
  by (cases "getFirst s c"; cases "getLatest s c")
    (auto simp: findMissingFullRange_def findMissingLimit_def)

lemma findMissing_local:
  "filter (\<lambda>r. chainId r = c) s = filter (\<lambda>r. chainId r = c) s'
     \<Longrightarrow> findMissingFullRange s c = findMissingFullRange s' c"
  by (simp add: findMissingFullRange_def findMissingLimit_eq missingHeights_def storedHeights_def)

lemma getLatest_local:
  "filter (\<lambda>r. chainId r = c) s = filter (\<lambda>r. chainId r = c) s'
     \<Longrightarrow> getLatest s c = getLatest s' c"
  by (simp add: getLatest_def)

lemma getLatestCall_accepts: "inInt32 c \<Longrightarrow> getLatestCall s c = Inr (getLatest s c)"
  by (simp add: getLatestCall_def chainIdArg_def)

lemma getLatestCall_rejects: "\<not> inInt32 c \<Longrightarrow> \<exists>e. getLatestCall s c = Inl e"
  by (simp add: getLatestCall_def chainIdArg_def)

lemma scan_aborts:
  assumes n: "n \<in> set (findMissingFullRange (db w) c)"
    and fail: "\<forall>b. getBlockByNumber E c n \<noteq> Inr (Some b)"
  shows "\<exists>e. scanClientTip E c w = Inl e"
proof (cases "inInt32 c")
  case False
  then obtain e where "getLatestCall (db w) c = Inl e"
    using getLatestCall_rejects by blast
  then show ?thesis by (simp add: scanClientTip_def Let_def)
next
  case True
  let ?missing = "findMissingFullRange (db w) c"
  obtain latest where "getLatest (db w) c = Some latest"
    using findMissing_needs_rows [OF n] by auto
  then have l: "getLatestCall (db w) c = Inr (Some latest)"
    using True by (simp add: getLatestCall_accepts)
  have ne: "?missing \<noteq> []" using n by auto
  show ?thesis
  proof (cases "promiseAll (map (getBlockByNumber E c) ?missing)")
    case (Inl e)
    then show ?thesis using l ne by (simp add: scanClientTip_def Let_def)
  next
    case (Inr bs)
    obtain y where "getBlockByNumber E c n = Inr y" "y \<in> set bs"
      using promiseAll_Inr [OF Inr n] by blast
    then have "None \<in> set bs" using fail by (cases y) auto
    then obtain e where "mapBlocks c bs = Inl e"
      using mapBlocks_Inr [of c bs] by (cases "mapBlocks c bs") auto
    then show ?thesis using l ne Inr by (simp add: scanClientTip_def Let_def)
  qed
qed

lemma scan_succeeds:
  assumes m: "m \<in> set (findMissingFullRange (db w) d)"
    and ok: "\<forall>k \<in> set (findMissingFullRange (db w) d).
               \<exists>b. getBlockByNumber E d k = Inr (Some b) \<and> fitsColumns (mapped d b)"
    and sf: "\<forall>rows. storeFault E rows = None"
    and b0: "getBlockByNumber E d m = Inr (Some b0)"
  shows "\<exists>w'. scanClientTip E d w = Inr w' \<and> list_ex (conflicts (mapped d b0)) (db w')
           \<and> LogSynced (getChainName E d) (findMissingFullRange (db w) d) \<in> set (logger w')"
proof -
  let ?missing = "findMissingFullRange (db w) d"
  have "\<exists>b. fitsColumns (mapped d b)" using ok m by blast
  then have range: "inInt32 d" by (auto simp: fitsColumns_def mapped_def)
  obtain latest where "getLatest (db w) d = Some latest"
    using findMissing_needs_rows [OF m] by auto
  then have l: "getLatestCall (db w) d = Inr (Some latest)"
    using range by (simp add: getLatestCall_accepts)
  have ne: "?missing \<noteq> []" using m by auto
  obtain g where g: "\<forall>k \<in> set ?missing. getBlockByNumber E d k = Inr (Some (g k))
      \<and> fitsColumns (mapped d (g k))"
    using bchoice [OF ok] by blast
  have p: "promiseAll (map (getBlockByNumber E d) ?missing) = Inr (map Some (map g ?missing))"
    using promiseAll_resolves [of ?missing "getBlockByNumber E d" "\<lambda>k. Some (g k)"] g
    by (simp add: comp_def)
  let ?data = "map (mapped d) (map g ?missing)"
  have mb: "mapBlocks d (map Some (map g ?missing)) = Inr ?data"
    by (rule mapBlocks_Some)
  have fit: "list_all fitsColumns ?data"
    using g by (simp add: list_all_iff)
  obtain w1 where w1: "storeUpsert E w ?data = Inr w1"
    using storeUpsert_accepts [of E ?data w] sf fit by auto
  have "g m = b0" using g m b0 by auto
  then have "mapped d b0 \<in> set ?data" using m by auto
  then have cov: "list_ex (conflicts (mapped d b0)) (db w1)"
    using storeUpsert_covers [OF w1] by blast
  have "scanClientTip E d w = Inr (writeLog (LogSynced (getChainName E d) ?missing) w1)"
    using l ne p mb w1 by (simp add: scanClientTip_def Let_def)
  then show ?thesis using cov by (simp add: writeLog_def)
qed

lemma scanClientTip_Inr:
  assumes "scanClientTip E c w = Inr w'"
  shows "\<exists>ext lg. db w' = db w @ ext \<and> (\<forall>r \<in> set ext. chainId r = c) \<and> logger w' = logger w @ lg"
proof (cases "getLatestCall (db w) c")
  case (Inl e)
  then show ?thesis using assms by (simp add: scanClientTip_def)
next
  case (Inr found)
  show ?thesis
  proof (cases found)
    case None
    then show ?thesis using assms Inr by (auto simp: scanClientTip_def writeLog_def)
  next
    case (Some latest)
    show ?thesis
    proof (cases "findMissingFullRange (db w) c = []")
      case True
      then show ?thesis using assms Inr Some by (auto simp: scanClientTip_def writeLog_def)
    next
      case False
      then obtain bs data w1 where m: "mapBlocks c bs = Inr data"
        and u: "storeUpsert E w data = Inr w1"
        and w': "w' = writeLog (LogSynced (getChainName E c) (findMissingFullRange (db w) c)) w1"
        using assms Inr Some by (auto simp: scanClientTip_def Let_def split: sum.splits)
      obtain ext where "db w1 = db w @ ext" "set ext \<subseteq> set data" "logger w1 = logger w"
        using storeUpsert_Inr [OF u] by blast
      moreover have "\<forall>r \<in> set data. chainId r = c" using mapBlocks_Inr [OF m] by simp
      ultimately show ?thesis using w' by (auto simp: writeLog_def)
    qed
  qed
qed

lemma scan_step_grows:
  "\<exists>ext lg. db (case scanClientTip E c w of Inl err \<Rightarrow> writeLog (LogError c err) w | Inr w' \<Rightarrow> w')
               = db w @ ext
     \<and> (\<forall>r \<in> set ext. chainId r = c)
     \<and> logger (case scanClientTip E c w of Inl err \<Rightarrow> writeLog (LogError c err) w | Inr w' \<Rightarrow> w')
               = logger w @ lg"
proof (cases "scanClientTip E c w")
  case (Inl e)
  then show ?thesis by (simp add: writeLog_def)
next
  case (Inr w')
  then show ?thesis using scanClientTip_Inr [OF Inr] by simp
qed

lemma scanTipLoop_grows:
  "\<exists>ext lg. db (scanTipLoop E cs w) = db w @ ext \<and> (\<forall>r \<in> set ext. chainId r \<in> set cs)
     \<and> logger (scanTipLoop E cs w) = logger w @ lg"
proof (induction cs arbitrary: w)
  case Nil
  then show ?case by simp
next
  case (Cons c cs)
  define w1 where "w1 = (case scanClientTip E c w of Inl err \<Rightarrow> writeLog (LogError c err) w | Inr w' \<Rightarrow> w')"
  obtain e1 l1 where 1: "db w1 = db w @ e1" "\<forall>r \<in> set e1. chainId r = c" "logger w1 = logger w @ l1"
    using scan_step_grows [where E = E and c = c and w = w] unfolding w1_def by blast
  obtain e2 l2 where 2: "db (scanTipLoop E cs w1) = db w1 @ e2" "\<forall>r \<in> set e2. chainId r \<in> set cs"
      "logger (scanTipLoop E cs w1) = logger w1 @ l2"
    using Cons.IH [of w1] by blast
  have "scanTipLoop E (c # cs) w = scanTipLoop E cs w1" by (simp add: w1_def)
  moreover have "\<forall>r \<in> set (e1 @ e2). chainId r \<in> set (c # cs)" using 1 2 by auto
  ultimately show ?case using 1 2 by (metis append.assoc)
qed

lemma scanTipLoop_append:
  "scanTipLoop E (pre @ cs) w = scanTipLoop E cs (scanTipLoop E pre w)"
  by (induction pre arbitrary: w) simp_all

lemma scanTipLoop_keeps_chain:
  assumes "c \<notin> set cs"
  shows "filter (\<lambda>r. chainId r = c) (db (scanTipLoop E cs w)) = filter (\<lambda>r. chainId r = c) (db w)"
proof -
  obtain ext lg where g: "db (scanTipLoop E cs w) = db w @ ext" "\<forall>r \<in> set ext. chainId r \<in> set cs"
    using scanTipLoop_grows by blast
  have "filter (\<lambda>r. chainId r = c) ext = []"
    using g(2) assms by (auto simp: filter_empty_conv)
  then show ?thesis unfolding g by simp
qed

lemma scanTipWindows_loop:
  "getConfiguredChainIds E = pre @ c # post
     \<Longrightarrow> scanTipWindows E w =
         scanTipLoop E post
           (case scanClientTip E c (scanTipLoop E pre w) of
              Inl err \<Rightarrow> writeLog (LogError c err) (scanTipLoop E pre w)
            | Inr w' \<Rightarrow> w')"
  by (simp add: scanTipWindows_def scanTipLoop_append)

lemma scan_failure_isolated:
  assumes ids: "getConfiguredChainIds E = pre @ c # post" and pre: "c \<notin> set pre"
    and post: "c \<notin> set post"
    and n: "n \<in> set (findMissingFullRange (db w) c)"
    and fail: "\<forall>b. getBlockByNumber E c n \<noteq> Inr (Some b)"
  shows "(\<exists>e. LogError c e \<in> set (logger (scanTipWindows E w))
            \<and> scanClientTip E c (scanTipLoop E pre w) = Inl e
            \<and> scanTipWindows E w
                = scanTipLoop E post (writeLog (LogError c e) (scanTipLoop E pre w)))
         \<and> filter (\<lambda>r. chainId r = c) (db (scanTipWindows E w)) = filter (\<lambda>r. chainId r = c) (db w)"
proof -
  let ?w1 = "scanTipLoop E pre w"
  have k1: "filter (\<lambda>r. chainId r = c) (db ?w1) = filter (\<lambda>r. chainId r = c) (db w)"
    using pre by (rule scanTipLoop_keeps_chain)
  have "findMissingFullRange (db ?w1) c = findMissingFullRange (db w) c"
    using k1 by (rule findMissing_local)
  then have "n \<in> set (findMissingFullRange (db ?w1) c)" using n by simp
  then obtain e where e: "scanClientTip E c ?w1 = Inl e"
    using scan_aborts fail by blast
  let ?w2 = "writeLog (LogError c e) ?w1"
  have run: "scanTipWindows E w = scanTipLoop E post ?w2"
    using scanTipWindows_loop [OF ids, of w] e by simp
  obtain ext lg where g: "logger (scanTipLoop E post ?w2) = logger ?w2 @ lg"
    using scanTipLoop_grows by blast
  have lg: "LogError c e \<in> set (logger (scanTipWindows E w))"
    unfolding run g by (simp add: writeLog_def)
  have "filter (\<lambda>r. chainId r = c) (db (scanTipLoop E post ?w2)) = filter (\<lambda>r. chainId r = c) (db ?w2)"
    using post by (rule scanTipLoop_keeps_chain)
  then have keep: "filter (\<lambda>r. chainId r = c) (db (scanTipWindows E w)) = filter (\<lambda>r. chainId r = c) (db w)"
    unfolding run using k1 by (simp add: writeLog_def)
  show ?thesis using e run lg keep by blast
qed

lemma scan_reaches_chain:
  assumes dist: "distinct (getConfiguredChainIds E)" and d: "d \<in> set (getConfiguredChainIds E)"
    and m: "m \<in> set (findMissingFullRange (db w) d)"
    and ok: "\<forall>k \<in> set (findMissingFullRange (db w) d).
               \<exists>b. getBlockByNumber E d k = Inr (Some b) \<and> fitsColumns (mapped d b)"
    and sf: "\<forall>rows. storeFault E rows = None"
    and b0: "getBlockByNumber E d m = Inr (Some b0)"
  shows "list_ex (conflicts (mapped d b0)) (db (scanTipWindows E w))
         \<and> LogSynced (getChainName E d) (findMissingFullRange (db w) d)
             \<in> set (logger (scanTipWindows E w))"
proof -
  obtain pre post where ids: "getConfiguredChainIds E = pre @ d # post"
    using d by (auto simp: in_set_conv_decomp)
  have pre: "d \<notin> set pre" using dist ids by auto
  let ?w1 = "scanTipLoop E pre w"
  have "filter (\<lambda>r. chainId r = d) (db ?w1) = filter (\<lambda>r. chainId r = d) (db w)"
    using pre by (rule scanTipLoop_keeps_chain)
  then have same: "findMissingFullRange (db ?w1) d = findMissingFullRange (db w) d"
    by (rule findMissing_local)
  obtain w' where s: "scanClientTip E d ?w1 = Inr w'"
    and cov: "list_ex (conflicts (mapped d b0)) (db w')"
    and lg: "LogSynced (getChainName E d) (findMissingFullRange (db w) d) \<in> set (logger w')"
    using scan_succeeds [of m ?w1 d E b0] m ok sf b0 unfolding same by blast
  have run: "scanTipWindows E w = scanTipLoop E post w'"
    using scanTipWindows_loop [OF ids, of w] s by simp
  obtain ext l where "db (scanTipLoop E post w') = db w' @ ext"
    "logger (scanTipLoop E post w') = logger w' @ l"
    using scanTipLoop_grows by blast
  then show ?thesis unfolding run using cov lg by (auto simp: list_ex_iff)
qed

lemma scanTipWindows_grows:
  "\<exists>ext lg. db (scanTipWindows E w) = db w @ ext
     \<and> (\<forall>r \<in> set ext. chainId r \<in> set (getConfiguredChainIds E))
     \<and> logger (scanTipWindows E w) = logger w @ lg"
proof (cases "getConfiguredChainIds E = []")
  case True
  then show ?thesis by (simp add: scanTipWindows_def writeLog_def)
next
  case False
  then show ?thesis using scanTipLoop_grows by (simp add: scanTipWindows_def)
qed

text \<open>
  Claim C5 (gap scan, failed request). In one run of \<open>scanTipWindows\<close>: if the request
  for one of the missing heights of a configured chain does not yield a block, the scan
  of that chain fails before the batch write, the error is logged, the rows of that chain
  after the run are its rows before, and the run goes on with the remaining chains from
  the untouched table. Every other configured chain with missing heights whose requests
  all yield blocks has them written and its line logged in the same run, whatever chains
  failed. The run only appends to the table and to the log, rows of configured chains.
\<close>

theorem gap_scan_discards_batch:
  "(getConfiguredChainIds E = pre @ c # post \<and> c \<notin> set pre \<and> c \<notin> set post
      \<and> n \<in> set (findMissingFullRange (db w) c) \<and> (\<forall>b. getBlockByNumber E c n \<noteq> Inr (Some b))
     \<longrightarrow> (\<exists>e. LogError c e \<in> set (logger (scanTipWindows E w))
            \<and> scanClientTip E c (scanTipLoop E pre w) = Inl e
            \<and> scanTipWindows E w
                = scanTipLoop E post (writeLog (LogError c e) (scanTipLoop E pre w)))
         \<and> filter (\<lambda>r. chainId r = c) (db (scanTipWindows E w))
             = filter (\<lambda>r. chainId r = c) (db w))
   \<and> (distinct (getConfiguredChainIds E) \<and> d \<in> set (getConfiguredChainIds E)
      \<and> m \<in> set (findMissingFullRange (db w) d)
      \<and> (\<forall>k \<in> set (findMissingFullRange (db w) d).
             \<exists>b. getBlockByNumber E d k = Inr (Some b) \<and> fitsColumns (mapped d b))
      \<and> (\<forall>rows. storeFault E rows = None)
      \<and> getBlockByNumber E d m = Inr (Some b0)
     \<longrightarrow> list_ex (conflicts (mapped d b0)) (db (scanTipWindows E w))
         \<and> LogSynced (getChainName E d) (findMissingFullRange (db w) d)
             \<in> set (logger (scanTipWindows E w)))
   \<and> (\<exists>ext lg. db (scanTipWindows E w) = db w @ ext
         \<and> (\<forall>r \<in> set ext. chainId r \<in> set (getConfiguredChainIds E))
         \<and> logger (scanTipWindows E w) = logger w @ lg)"
proof (intro conjI impI)
  assume a: "getConfiguredChainIds E = pre @ c # post \<and> c \<notin> set pre \<and> c \<notin> set post
      \<and> n \<in> set (findMissingFullRange (db w) c) \<and> (\<forall>b. getBlockByNumber E c n \<noteq> Inr (Some b))"
  have r: "(\<exists>e. LogError c e \<in> set (logger (scanTipWindows E w))
            \<and> scanClientTip E c (scanTipLoop E pre w) = Inl e
            \<and> scanTipWindows E w
                = scanTipLoop E post (writeLog (LogError c e) (scanTipLoop E pre w)))
         \<and> filter (\<lambda>r. chainId r = c) (db (scanTipWindows E w)) = filter (\<lambda>r. chainId r = c) (db w)"
    using a by (intro scan_failure_isolated [where n = n]) blast+
  show "\<exists>e. LogError c e \<in> set (logger (scanTipWindows E w))
            \<and> scanClientTip E c (scanTipLoop E pre w) = Inl e
            \<and> scanTipWindows E w
                = scanTipLoop E post (writeLog (LogError c e) (scanTipLoop E pre w))"
    using r by blast
  show "filter (\<lambda>r. chainId r = c) (db (scanTipWindows E w)) = filter (\<lambda>r. chainId r = c) (db w)"
    using r by blast
next
  assume b: "distinct (getConfiguredChainIds E) \<and> d \<in> set (getConfiguredChainIds E)
      \<and> m \<in> set (findMissingFullRange (db w) d)
      \<and> (\<forall>k \<in> set (findMissingFullRange (db w) d).
             \<exists>b. getBlockByNumber E d k = Inr (Some b) \<and> fitsColumns (mapped d b))
      \<and> (\<forall>rows. storeFault E rows = None)
      \<and> getBlockByNumber E d m = Inr (Some b0)"
  have r: "list_ex (conflicts (mapped d b0)) (db (scanTipWindows E w))
         \<and> LogSynced (getChainName E d) (findMissingFullRange (db w) d)
             \<in> set (logger (scanTipWindows E w))"
    using b by (intro scan_reaches_chain [where m = m]) blast+
  show "list_ex (conflicts (mapped d b0)) (db (scanTipWindows E w))" using r by blast
  show "LogSynced (getChainName E d) (findMissingFullRange (db w) d)
             \<in> set (logger (scanTipWindows E w))" using r by blast
next
  show "\<exists>ext lg. db (scanTipWindows E w) = db w @ ext
         \<and> (\<forall>r \<in> set ext. chainId r \<in> set (getConfiguredChainIds E))
         \<and> logger (scanTipWindows E w) = logger w @ lg"
    by (rule scanTipWindows_grows)
qed

lemma missingHeights_holesChain2: "missingHeights holesChain2 2 = [2006..2009]"
proof -
  let ?H = "{2000..2005} \<union> {2010..2015::int}"
  have hs: "storedHeights holesChain2 2 = [2000..2005] @ [2010..2015]"
    by (simp only: holesChain2_def storedHeights_append storedHeights_island)
  have st: "set (storedHeights holesChain2 2) = ?H"
    by (simp only: hs set_append set_upto)
  have ne: "storedHeights holesChain2 2 \<noteq> []"
    using st by auto
  have lo: "Min ?H = 2000" by (intro Min_eqI) auto
  have hi: "Max ?H = 2015" by (intro Max_eqI) auto
  have m: "missingHeights holesChain2 2 = filter (\<lambda>n. n \<notin> ?H) [2001..2014]"
    using ne by (simp add: missingHeights_def Let_def st lo hi)
  have s1: "[2001..2014::int] = [2001..2005] @ [2006..2014]"
    by (rule upto_cut) simp_all
  have s2: "[2006..2014::int] = [2006..2009] @ [2010..2014]"
    by (rule upto_cut) simp_all
  have a: "filter (\<lambda>n. n \<notin> ?H) [2001..2005] = []"
    by (simp only: filter_empty_conv set_upto) auto
  have b: "filter (\<lambda>n. n \<notin> ?H) [2006..2009] = [2006..2009]"
    by (simp only: filter_id_conv set_upto) auto
  have c: "filter (\<lambda>n. n \<notin> ?H) [2010..2014] = []"
    by (simp only: filter_empty_conv set_upto) auto
  show ?thesis unfolding m s1 s2 filter_append a b c by (simp only: append_Nil append_Nil2)
qed

lemma filter_island:
  "filter (\<lambda>r. chainId r = c) (island d a b) = (if c = d then island d a b else [])"
  by (simp add: island_def filter_map comp_def mockBlock_def)

lemma storedHeights_other: "c \<noteq> d \<Longrightarrow> storedHeights (island d a b) c = []"
  by (simp add: storedHeights_def filter_island)

lemma missingHeights_cong:
  "storedHeights s c = storedHeights s' c \<Longrightarrow> missingHeights s c = missingHeights s' c"
  by (simp add: missingHeights_def)

lemma missingHeights_holesChain3: "missingHeights holesChain3 3 = [3003..3004]"
proof -
  let ?H = "{3000..3002} \<union> {3005..3006::int}"
  have hs: "storedHeights holesChain3 3 = [3000..3002] @ [3005..3006]"
    by (simp only: holesChain3_def storedHeights_append storedHeights_island)
  have st: "set (storedHeights holesChain3 3) = ?H"
    by (simp only: hs set_append set_upto)
  have ne: "storedHeights holesChain3 3 \<noteq> []"
    using st by auto
  have lo: "Min ?H = 3000" by (intro Min_eqI) auto
  have hi: "Max ?H = 3006" by (intro Max_eqI) auto
  have m: "missingHeights holesChain3 3 = filter (\<lambda>n. n \<notin> ?H) [3001..3005]"
    using ne by (simp add: missingHeights_def Let_def st lo hi)
  have s1: "[3001..3005::int] = [3001..3002] @ [3003..3005]"
    by (rule upto_cut) simp_all
  have s2: "[3003..3005::int] = [3003..3004] @ [3005..3005]"
    by (rule upto_cut) simp_all
  have a: "filter (\<lambda>n. n \<notin> ?H) [3001..3002] = []"
    by (simp only: filter_empty_conv set_upto) auto
  have b: "filter (\<lambda>n. n \<notin> ?H) [3003..3004] = [3003..3004]"
    by (simp only: filter_id_conv set_upto) auto
  have c: "filter (\<lambda>n. n \<notin> ?H) [3005..3005] = []"
    by (simp only: filter_empty_conv set_upto) auto
  show ?thesis unfolding m s1 s2 filter_append a b c by (simp only: append_Nil append_Nil2)
qed

lemma missing_chain2:
  "findMissingFullRange (holesChain2 @ holesChain3) 2 = [2006, 2007, 2008, 2009]"
proof -
  have "storedHeights (holesChain2 @ holesChain3) 2 = storedHeights holesChain2 2"
    by (simp add: storedHeights_append holesChain3_def storedHeights_other)
  then have "missingHeights (holesChain2 @ holesChain3) 2 = [2006..2009]"
    using missingHeights_cong missingHeights_holesChain2 by metis
  then show ?thesis
    by (simp add: findMissingFullRange_def findMissingLimit_eq upto_rec1)
qed

lemma missing_chain3: "findMissingFullRange (holesChain2 @ holesChain3) 3 = [3003, 3004]"
proof -
  have "storedHeights (holesChain2 @ holesChain3) 3 = storedHeights holesChain3 3"
    by (simp add: storedHeights_append holesChain2_def storedHeights_other)
  then have "missingHeights (holesChain2 @ holesChain3) 3 = [3003..3004]"
    using missingHeights_cong missingHeights_holesChain3 by metis
  then show ?thesis
    by (simp add: findMissingFullRange_def findMissingLimit_eq upto_rec1)
qed

lemma rows_chain2:
  "filter (\<lambda>r. chainId r = 2) (holesChain2 @ holesChain3) = holesChain2"
  by (simp add: holesChain2_def holesChain3_def filter_island)

lemma fits_mock: "\<bar>n\<bar> < 2 ^ 63 \<Longrightarrow> inInt32 c \<Longrightarrow> fitsColumns (mapped c (mockRpcBlock n))"
  by (auto simp: fitsColumns_def mapped_def mockRpcBlock_def inInt32_def inInt64_def
      toNumber_exact)

lemma scan_chain1:
  "scanClientTip isolationEnv 1 \<lparr>db = holesChain2 @ holesChain3, logger = lg\<rparr>
     = Inr \<lparr>db = holesChain2 @ holesChain3,
            logger = lg @ [DebugNoBlocks (getChainName isolationEnv 1)]\<rparr>"
  by (simp add: scanClientTip_def getLatestCall_def chainIdArg_def inInt32_def getLatest_def
      holesChain2_def holesChain3_def filter_island writeLog_def)

lemma scan_chain2:
  assumes d: "db w = holesChain2 @ holesChain3"
  shows "scanClientTip isolationEnv 2 w = Inl (RpcError ''Network timeout'')"
proof -
  have "getLatest (holesChain2 @ holesChain3) 2 \<noteq> None"
    using findMissing_needs_rows [of 2006 "holesChain2 @ holesChain3" 2]
    by (simp add: missing_chain2)
  then obtain l where "getLatest (holesChain2 @ holesChain3) 2 = Some l" by auto
  then have l: "getLatestCall (holesChain2 @ holesChain3) 2 = Inr (Some l)"
    by (simp add: getLatestCall_accepts inInt32_def)
  show ?thesis
    by (simp add: scanClientTip_def l d missing_chain2 isolationEnv_def Let_def)
qed




text \<open>The same chains in a run of \<open>scanTipWindows\<close>: chain 1 has no rows, chain 2 misses
  2006..2009 and the request for 2007 fails, chain 3 misses 3003 and 3004. The error of
  chain 2 is logged and its rows are as before; the two heights of chain 3 are written
  and logged.\<close>

theorem gap_scan_discards_batch_witness:
  "LogError 2 (RpcError ''Network timeout'')
      \<in> set (logger (scanTipWindows isolationEnv \<lparr>db = holesChain2 @ holesChain3, logger = []\<rparr>))
   \<and> filter (\<lambda>r. chainId r = 2)
        (db (scanTipWindows isolationEnv \<lparr>db = holesChain2 @ holesChain3, logger = []\<rparr>))
       = holesChain2
   \<and> list_ex (conflicts (mapped 3 (mockRpcBlock 3003)))
        (db (scanTipWindows isolationEnv \<lparr>db = holesChain2 @ holesChain3, logger = []\<rparr>))
   \<and> list_ex (conflicts (mapped 3 (mockRpcBlock 3004)))
        (db (scanTipWindows isolationEnv \<lparr>db = holesChain2 @ holesChain3, logger = []\<rparr>))
   \<and> LogSynced (getChainName isolationEnv 3) [3003, 3004]
      \<in> set (logger (scanTipWindows isolationEnv \<lparr>db = holesChain2 @ holesChain3, logger = []\<rparr>))"
proof -
  let ?w = "\<lparr>db = holesChain2 @ holesChain3, logger = []\<rparr>"
  let ?run = "scanTipWindows isolationEnv ?w"
  have ids: "getConfiguredChainIds isolationEnv = [1] @ 2 # [3] \<and> 2 \<notin> set [1::int]
      \<and> 2 \<notin> set [3::int]"
    by (simp add: isolationEnv_def)
  have n: "2007 \<in> set (findMissingFullRange (db ?w) 2)"
    by (simp add: missing_chain2)
  have fail: "\<forall>b. getBlockByNumber isolationEnv 2 2007 \<noteq> Inr (Some b)"
    by (simp add: isolationEnv_def)
  obtain e where lg: "LogError 2 e \<in> set (logger ?run)"
    and e: "scanClientTip isolationEnv 2 (scanTipLoop isolationEnv [1] ?w) = Inl e"
    and keep: "filter (\<lambda>r. chainId r = 2) (db ?run) = filter (\<lambda>r. chainId r = 2) (db ?w)"
    using ids n fail
      gap_scan_discards_batch [where E = isolationEnv and pre = "[1]" and c = 2 and post = "[3]"
        and n = 2007 and w = ?w and d = 3 and m = 3003 and ?b0.0 = "mockRpcBlock 3003"]
    by blast
  have "db (scanTipLoop isolationEnv [1] ?w) = holesChain2 @ holesChain3"
    by (simp add: scan_chain1)
  then have "e = RpcError ''Network timeout''"
    using e scan_chain2 by simp
  then have w1: "LogError 2 (RpcError ''Network timeout'') \<in> set (logger ?run)"
    using lg by simp
  have w2: "filter (\<lambda>r. chainId r = 2) (db ?run) = holesChain2"
    using keep rows_chain2 by (simp del: filter_append)
  have d: "distinct (getConfiguredChainIds isolationEnv) \<and> 3 \<in> set (getConfiguredChainIds isolationEnv)
      \<and> (\<forall>rows. storeFault isolationEnv rows = None)"
    by (simp add: isolationEnv_def)
  have m: "findMissingFullRange (db ?w) 3 = [3003, 3004]"
    by (simp add: missing_chain3)
  have ok: "\<forall>k \<in> set (findMissingFullRange (db ?w) 3).
       \<exists>b. getBlockByNumber isolationEnv 3 k = Inr (Some b) \<and> fitsColumns (mapped 3 b)"
    unfolding m by (simp add: isolationEnv_def fits_mock inInt32_def)
  have b3: "getBlockByNumber isolationEnv 3 3003 = Inr (Some (mockRpcBlock 3003))"
    and b4: "getBlockByNumber isolationEnv 3 3004 = Inr (Some (mockRpcBlock 3004))"
    by (simp_all add: isolationEnv_def)
  have m3: "3003 \<in> set (findMissingFullRange (db ?w) 3)"
    and m4: "3004 \<in> set (findMissingFullRange (db ?w) 3)"
    unfolding m by simp_all
  have w3: "list_ex (conflicts (mapped 3 (mockRpcBlock 3003))) (db ?run)
      \<and> LogSynced (getChainName isolationEnv 3) (findMissingFullRange (db ?w) 3)
           \<in> set (logger ?run)"
    using d ok b3 m3
      gap_scan_discards_batch [where E = isolationEnv and pre = "[1]" and c = 2 and post = "[3]"
        and n = 2007 and w = ?w and d = 3 and m = 3003 and ?b0.0 = "mockRpcBlock 3003"]
    by blast
  have w4: "list_ex (conflicts (mapped 3 (mockRpcBlock 3004))) (db ?run)"
    using d ok b4 m4
      gap_scan_discards_batch [where E = isolationEnv and pre = "[1]" and c = 2 and post = "[3]"
        and n = 2007 and w = ?w and d = 3 and m = 3004 and ?b0.0 = "mockRpcBlock 3004"]
    by blast
  have w5: "LogSynced (getChainName isolationEnv 3) [3003, 3004] \<in> set (logger ?run)"
    using w3 unfolding m by simp
  show ?thesis using w1 w2 w3 w4 w5 by simp
qed

section \<open>Properties of the read API and of numeric precision\<close>

lemma toNumber_2_53_plus_1: "toNumber 9007199254740993 = 9007199254740992"
  by (simp add: toNumber_def roundNat_def excessBits_step excessBits_small Let_def)

lemma parse_big: "intValue ''9007199254740993'' = 9007199254740993"
  by (simp add: intValue_def parseDigits_def digitVal_def)

lemma match_big: "matchesInteger ''9007199254740993''"
  by (simp add: matchesInteger_def isDigit_def)

lemma pipe_big: "ParseIntPipe ''9007199254740993'' = Inr 9007199254740992"
  by (simp add: ParseIntPipe_def match_big parse_big toNumber_2_53_plus_1 isFiniteNumber_def)

lemma pipe_invalid: "ParseIntPipe ''invalid'' = Inl BadRequestException"
  by (simp add: ParseIntPipe_def matchesInteger_def isDigit_def)

lemma digit_cases: "d < 10 \<Longrightarrow> d \<in> {0, 1, 2, 3, 4, 5, 6, 7, 8, 9::nat}"
  by auto

lemma digitVal_digitChar: "d < 10 \<Longrightarrow> digitVal (digitChar d) = d"
  using digit_cases [of d] by (auto simp: digitVal_def digitChar_def)

lemma isDigit_digitChar: "d < 10 \<Longrightarrow> isDigit (digitChar d)"
  using digit_cases [of d] by (auto simp: isDigit_def digitChar_def)

lemma digitChar_not_minus: "d < 10 \<Longrightarrow> digitChar d \<noteq> CHR ''-''"
  using digit_cases [of d] by (auto simp: digitChar_def)

lemma parseDigits_snoc: "parseDigits (ds @ [ch]) = 10 * parseDigits ds + digitVal ch"
  by (simp add: parseDigits_def)

lemma digitsOf_props:
  "digitsOf n \<noteq> [] \<and> list_all isDigit (digitsOf n) \<and> parseDigits (digitsOf n) = n"
proof (induction n rule: digitsOf.induct)
  case (1 n)
  show ?case
  proof (cases "n < 10")
    case True
    then have "digitsOf n = [digitChar n]" by (subst digitsOf.simps) simp
    then show ?thesis using True
      by (simp add: parseDigits_def digitVal_digitChar isDigit_digitChar)
  next
    case False
    then have d: "digitsOf n = digitsOf (n div 10) @ [digitChar (n mod 10)]"
      by (subst digitsOf.simps) simp
    have m: "n mod 10 < 10" by simp
    show ?thesis
      using "1.IH" [OF False] unfolding d
      by (simp add: parseDigits_snoc digitVal_digitChar [OF m] isDigit_digitChar [OF m])
  qed
qed

lemma isDigit_not_minus: "isDigit ch \<Longrightarrow> ch \<noteq> CHR ''-''"
  by (auto simp: isDigit_def)

lemma toString_roundtrip: "matchesInteger (toString i) \<and> intValue (toString i) = i"
proof (cases "i < 0")
  case True
  then show ?thesis
    using digitsOf_props [of "nat (- i)"]
    by (simp add: toString_def matchesInteger_def intValue_def)
next
  case False
  obtain ch ds where c: "digitsOf (nat i) = ch # ds"
    using digitsOf_props [of "nat i"] by (cases "digitsOf (nat i)") auto
  have "isDigit ch" using digitsOf_props [of "nat i"] c by simp
  then have "ch \<noteq> CHR ''-''" by (rule isDigit_not_minus)
  then show ?thesis
    using False digitsOf_props [of "nat i"] c
    by (simp add: toString_def matchesInteger_def intValue_def)
qed

lemma isFinite_53: "\<bar>i\<bar> \<le> 2 ^ 53 \<Longrightarrow> isFiniteNumber i"
  by (simp add: isFiniteNumber_def)


lemma pipe_rejects: "\<not> matchesInteger v \<Longrightarrow> ParseIntPipe v = Inl BadRequestException"
  by (simp add: ParseIntPipe_def)

lemma pipe_error: "ParseIntPipe v = Inl x \<Longrightarrow> x = BadRequestException"
  by (simp add: ParseIntPipe_def split: if_splits)

lemma latest_not_integer: "\<not> matchesInteger ''latest''"
  by (simp add: matchesInteger_def isDigit_def)

lemma inInt32_safe: "inInt32 c \<Longrightarrow> \<bar>c\<bar> \<le> 2 ^ 53"
  by (auto simp: inInt32_def)

lemma pipe_accepts: "ParseIntPipe v = Inr x \<Longrightarrow> matchesInteger v"
  by (simp add: ParseIntPipe_def split: if_splits)

lemma matches_nonempty: "matchesInteger v \<Longrightarrow> v \<noteq> []"
  by (auto simp: matchesInteger_def)

lemma pipe_value:
  "matchesInteger v \<Longrightarrow> \<bar>intValue v\<bar> \<le> 2 ^ 53 \<Longrightarrow> ParseIntPipe v = Inr (intValue v)"
  by (simp add: ParseIntPipe_def toNumber_exact isFinite_53)

lemma byNumber_safe:
  "inInt32 c \<Longrightarrow> \<bar>n\<bar> \<le> 2 ^ 53 \<Longrightarrow> byNumber enc s c n = Inr (rowAt s c n)"
  by (simp add: byNumber_def chainIdArg_def numberArg_def)

lemma byNumber_found:
  "byNumber enc s c n = Inr (Some r) \<Longrightarrow> \<bar>n\<bar> \<le> 2 ^ 53 \<Longrightarrow> inInt32 c \<and> rowAt s c n = Some r"
  by (auto simp: byNumber_def chainIdArg_def numberArg_def split: if_splits)

lemma toNumber_2_63: "toNumber 9223372036854775808 = 9223372036854775808"
  by (simp add: toNumber_def roundNat_def excessBits_step excessBits_small Let_def)

lemma pipe_2_63: "ParseIntPipe ''9223372036854775808'' = Inr 9223372036854775808"
  by (simp add: ParseIntPipe_def matchesInteger_def isDigit_def intValue_def parseDigits_def
      digitVal_def isFiniteNumber_def toNumber_2_63)

lemma pipe_2_31: "ParseIntPipe ''2147483648'' = Inr 2147483648"
  by (simp add: ParseIntPipe_def matchesInteger_def isDigit_def intValue_def parseDigits_def
      digitVal_def isFiniteNumber_def toNumber_exact)

lemma pipe_1: "ParseIntPipe ''1'' = Inr 1"
  by (simp add: ParseIntPipe_def matchesInteger_def isDigit_def intValue_def parseDigits_def
      digitVal_def isFiniteNumber_def toNumber_exact)

lemma latest_route:
  "ParseIntPipe cp = Inr c \<Longrightarrow>
     latest s cp =
       (if inInt32 c
        then (case getLatest s c of None \<Rightarrow> Inr notFoundBody | Some res \<Rightarrow> Inr (toEvmBlockDto res))
        else Inl InternalServerErrorException)"
  by (simp add: latest_def getLatestCall_def chainIdArg_def split: option.splits)

lemma byNumber_route:
  "ParseIntPipe cp = Inr c \<Longrightarrow> ParseIntPipe np = Inr n \<Longrightarrow>
     byNumberRoute enc s cp np =
       (case byNumber enc s c n of
          Inl e \<Rightarrow> Inl InternalServerErrorException
        | Inr None \<Rightarrow> Inr notFoundBody
        | Inr (Some res) \<Rightarrow> Inr (toEvmBlockDto res))"
  by (simp add: byNumberRoute_def)

lemma byNumber_route_rejects:
  assumes "\<not> matchesInteger cp \<or> \<not> matchesInteger np"
  shows "byNumberRoute enc s cp np = Inl BadRequestException"
proof (cases "ParseIntPipe cp")
  case (Inl x)
  then show ?thesis using pipe_error [OF Inl] by (simp add: byNumberRoute_def)
next
  case (Inr c)
  then have "\<not> matchesInteger np" using assms pipe_accepts by blast
  then show ?thesis using Inr by (simp add: byNumberRoute_def pipe_rejects)
qed

lemma byNumber_throws:
  "\<not> inInt32 c \<or> 2 ^ 63 \<le> \<bar>n\<bar> \<Longrightarrow> \<exists>e. byNumber enc s c n = Inl e"
  by (auto simp: byNumber_def chainIdArg_def numberArg_def)

text \<open>
  Claim C7 as stated fails, on both routes. The table holds a record of chain 1 at
  height \<open>2 ^ 53 + 1\<close> and the request for that height is answered with the sentinel
  \<open>{ error: "Not found" }\<close>; and for the chain id \<open>2 ^ 31\<close>, or the height \<open>2 ^ 63\<close>,
  which are integers, the status is neither 200 nor 400 but 500.
\<close>

theorem read_shape_counterexample:
  "rowAt unsafeChain 1 9007199254740993 = Some (mockBlock 1 9007199254740993)
   \<and> intValue ''1'' = 1 \<and> intValue ''9007199254740993'' = 9007199254740993
   \<and> evmBlocksGet sameKey unsafeChain [''1'', ''9007199254740993'']
       = \<lparr>statusCode = 200, responseBody = Some [(''error'', JString ''Not found'')]\<rparr>
   \<and> statusCode (evmBlocksGet sameKey storedChain [''2147483648'', ''latest'']) = 500
   \<and> statusCode (evmBlocksGet sameKey storedChain [''1'', ''9223372036854775808'']) = 500"
proof -
  have a: "rowAt unsafeChain 1 9007199254740993 = Some (mockBlock 1 9007199254740993)"
    by (simp add: rowAt_def unsafeChain_def mockBlock_def)
  have b: "intValue ''1'' = 1"
    by (simp add: intValue_def parseDigits_def digitVal_def)
  have c: "evmBlocksGet sameKey unsafeChain [''1'', ''9007199254740993'']
       = \<lparr>statusCode = 200, responseBody = Some [(''error'', JString ''Not found'')]\<rparr>"
    by (simp add: byNumberRoute_def pipe_1 pipe_big byNumber_def chainIdArg_def numberArg_def
        inInt32_def rowAt_def unsafeChain_def mockBlock_def notFoundBody_def)
  have d: "statusCode (evmBlocksGet sameKey storedChain [''2147483648'', ''latest'']) = 500"
    by (simp add: latest_def pipe_2_31 getLatestCall_def chainIdArg_def inInt32_def)
  have e: "statusCode (evmBlocksGet sameKey storedChain [''1'', ''9223372036854775808'']) = 500"
    by (simp add: byNumberRoute_def pipe_1 pipe_2_63 byNumber_def chainIdArg_def numberArg_def
        inInt32_def)
  show ?thesis using a b c d e parse_big by simp
qed

text \<open>
  Claim C7, amended (read shape stability). For \<open>GET /evm/blocks/{chainId}/latest\<close> and
  \<open>GET /evm/blocks/{chainId}/{number}\<close>, with a chain id in the URL that is an integer of
  the 32-bit range and a height in the URL that is an integer of magnitude up to
  \<open>2 ^ 53\<close>: when the table holds a record of that chain (at that height), the answer is
  status 200 with exactly the fields \<open>number\<close>, \<open>hash\<close>, \<open>parentHash\<close>, \<open>timestamp\<close>,
  the numeric ones as decimal strings (strings that match the integer pattern and read
  back as the stored value); when it holds none, the answer is status 200 with the body
  \<open>{ error: "Not found" }\<close>. When a parameter does not match the integer pattern
  \<^verbatim>\<open>-?[0-9]+\<close>, the status is 400. When the chain id is read as a number outside the 32-bit range, or the
  height as a number of magnitude \<open>2 ^ 63\<close> or more, the lookup throws and the status is
  500.
\<close>

theorem read_shape:
  "(matchesInteger cp \<and> inInt32 (intValue cp) \<and> getLatest s (intValue cp) = Some r
      \<longrightarrow> evmBlocksGet enc s [cp, ''latest'']
            = \<lparr>statusCode = 200, responseBody = Some (toEvmBlockDto r)\<rparr>)
   \<and> (matchesInteger cp \<and> inInt32 (intValue cp) \<and> getLatest s (intValue cp) = None
      \<longrightarrow> evmBlocksGet enc s [cp, ''latest'']
            = \<lparr>statusCode = 200, responseBody = Some [(''error'', JString ''Not found'')]\<rparr>)
   \<and> (cp \<noteq> [] \<and> \<not> matchesInteger cp
      \<longrightarrow> statusCode (evmBlocksGet enc s [cp, ''latest'']) = 400)
   \<and> (matchesInteger cp \<and> inInt32 (intValue cp) \<and> matchesInteger np \<and> \<bar>intValue np\<bar> \<le> 2 ^ 53
        \<and> rowAt s (intValue cp) (intValue np) = Some r
      \<longrightarrow> evmBlocksGet enc s [cp, np]
            = \<lparr>statusCode = 200, responseBody = Some (toEvmBlockDto r)\<rparr>)
   \<and> (matchesInteger cp \<and> inInt32 (intValue cp) \<and> matchesInteger np \<and> \<bar>intValue np\<bar> \<le> 2 ^ 53
        \<and> rowAt s (intValue cp) (intValue np) = None
      \<longrightarrow> evmBlocksGet enc s [cp, np]
            = \<lparr>statusCode = 200, responseBody = Some [(''error'', JString ''Not found'')]\<rparr>)
   \<and> (cp \<noteq> [] \<and> np \<noteq> [] \<and> np \<noteq> ''latest''
        \<and> (\<not> matchesInteger cp \<or> \<not> matchesInteger np)
      \<longrightarrow> statusCode (evmBlocksGet enc s [cp, np]) = 400)
   \<and> (ParseIntPipe cp = Inr c \<and> \<not> inInt32 c
      \<longrightarrow> statusCode (evmBlocksGet enc s [cp, ''latest'']) = 500
          \<and> (ParseIntPipe np = Inr n \<longrightarrow> statusCode (evmBlocksGet enc s [cp, np]) = 500))
   \<and> (ParseIntPipe cp = Inr c \<and> ParseIntPipe np = Inr n \<and> 2 ^ 63 \<le> \<bar>n\<bar>
      \<longrightarrow> statusCode (evmBlocksGet enc s [cp, np]) = 500)
   \<and> toEvmBlockDto r =
        [(''number'', JString (toString (number r))), (''hash'', JString (hash r)),
         (''parentHash'', JString (parentHash r)), (''timestamp'', JString (toString (timestamp r)))]
   \<and> matchesInteger (toString (number r)) \<and> intValue (toString (number r)) = number r
   \<and> matchesInteger (toString (timestamp r)) \<and> intValue (toString (timestamp r)) = timestamp r"
proof -
  have nl: "matchesInteger np \<Longrightarrow> np \<noteq> ''latest'' \<and> np \<noteq> []"
    using latest_not_integer matches_nonempty by auto
  have np: "ParseIntPipe np = Inr n \<Longrightarrow> np \<noteq> ''latest'' \<and> np \<noteq> []"
    using pipe_accepts nl by blast
  have ce: "matchesInteger cp \<Longrightarrow> cp \<noteq> []"
    by (rule matches_nonempty)
  have cq: "ParseIntPipe cp = Inr c \<Longrightarrow> cp \<noteq> []"
    using pipe_accepts matches_nonempty by blast
  have cpipe: "matchesInteger cp \<and> inInt32 (intValue cp) \<Longrightarrow> ParseIntPipe cp = Inr (intValue cp)"
    using pipe_value [of cp] inInt32_safe [of "intValue cp"] by blast
  have npipe: "matchesInteger np \<and> \<bar>intValue np\<bar> \<le> 2 ^ 53 \<Longrightarrow> ParseIntPipe np = Inr (intValue np)"
    using pipe_value [of np] by blast
  have a: "matchesInteger cp \<and> inInt32 (intValue cp) \<and> getLatest s (intValue cp) = Some r
      \<longrightarrow> evmBlocksGet enc s [cp, ''latest'']
            = \<lparr>statusCode = 200, responseBody = Some (toEvmBlockDto r)\<rparr>"
  proof
    assume h: "matchesInteger cp \<and> inInt32 (intValue cp) \<and> getLatest s (intValue cp) = Some r"
    then have "latest s cp = Inr (toEvmBlockDto r)"
      using latest_route [OF cpipe, of s] by simp
    then show "evmBlocksGet enc s [cp, ''latest'']
            = \<lparr>statusCode = 200, responseBody = Some (toEvmBlockDto r)\<rparr>"
      using ce h by simp
  qed
  have b: "matchesInteger cp \<and> inInt32 (intValue cp) \<and> getLatest s (intValue cp) = None
      \<longrightarrow> evmBlocksGet enc s [cp, ''latest'']
            = \<lparr>statusCode = 200, responseBody = Some [(''error'', JString ''Not found'')]\<rparr>"
  proof
    assume h: "matchesInteger cp \<and> inInt32 (intValue cp) \<and> getLatest s (intValue cp) = None"
    then have "latest s cp = Inr notFoundBody"
      using latest_route [OF cpipe, of s] by simp
    then show "evmBlocksGet enc s [cp, ''latest'']
            = \<lparr>statusCode = 200, responseBody = Some [(''error'', JString ''Not found'')]\<rparr>"
      using ce h by (simp add: notFoundBody_def)
  qed
  have c: "cp \<noteq> [] \<and> \<not> matchesInteger cp
      \<longrightarrow> statusCode (evmBlocksGet enc s [cp, ''latest'']) = 400"
    by (simp add: latest_def pipe_rejects)
  have d: "matchesInteger cp \<and> inInt32 (intValue cp) \<and> matchesInteger np \<and> \<bar>intValue np\<bar> \<le> 2 ^ 53
        \<and> rowAt s (intValue cp) (intValue np) = Some r
      \<longrightarrow> evmBlocksGet enc s [cp, np]
            = \<lparr>statusCode = 200, responseBody = Some (toEvmBlockDto r)\<rparr>"
  proof
    assume h: "matchesInteger cp \<and> inInt32 (intValue cp) \<and> matchesInteger np
        \<and> \<bar>intValue np\<bar> \<le> 2 ^ 53 \<and> rowAt s (intValue cp) (intValue np) = Some r"
    have "byNumber enc s (intValue cp) (intValue np) = Inr (Some r)"
      using h byNumber_safe [of "intValue cp" "intValue np" enc s] by simp
    then have "byNumberRoute enc s cp np = Inr (toEvmBlockDto r)"
      using byNumber_route [OF cpipe npipe, of enc s] h by simp
    then show "evmBlocksGet enc s [cp, np]
            = \<lparr>statusCode = 200, responseBody = Some (toEvmBlockDto r)\<rparr>"
      using nl ce h by simp
  qed
  have e: "matchesInteger cp \<and> inInt32 (intValue cp) \<and> matchesInteger np \<and> \<bar>intValue np\<bar> \<le> 2 ^ 53
        \<and> rowAt s (intValue cp) (intValue np) = None
      \<longrightarrow> evmBlocksGet enc s [cp, np]
            = \<lparr>statusCode = 200, responseBody = Some [(''error'', JString ''Not found'')]\<rparr>"
  proof
    assume h: "matchesInteger cp \<and> inInt32 (intValue cp) \<and> matchesInteger np
        \<and> \<bar>intValue np\<bar> \<le> 2 ^ 53 \<and> rowAt s (intValue cp) (intValue np) = None"
    have "byNumber enc s (intValue cp) (intValue np) = Inr None"
      using h byNumber_safe [of "intValue cp" "intValue np" enc s] by simp
    then have "byNumberRoute enc s cp np = Inr notFoundBody"
      using byNumber_route [OF cpipe npipe, of enc s] h by simp
    then show "evmBlocksGet enc s [cp, np]
            = \<lparr>statusCode = 200, responseBody = Some [(''error'', JString ''Not found'')]\<rparr>"
      using nl ce h by (simp add: notFoundBody_def)
  qed
  have f: "cp \<noteq> [] \<and> np \<noteq> [] \<and> np \<noteq> ''latest''
        \<and> (\<not> matchesInteger cp \<or> \<not> matchesInteger np)
      \<longrightarrow> statusCode (evmBlocksGet enc s [cp, np]) = 400"
    using byNumber_route_rejects [of cp np enc s] by auto
  have g: "ParseIntPipe cp = Inr c \<and> \<not> inInt32 c
      \<longrightarrow> statusCode (evmBlocksGet enc s [cp, ''latest'']) = 500
          \<and> (ParseIntPipe np = Inr n \<longrightarrow> statusCode (evmBlocksGet enc s [cp, np]) = 500)"
  proof (intro impI conjI)
    assume h: "ParseIntPipe cp = Inr c \<and> \<not> inInt32 c"
    then show "statusCode (evmBlocksGet enc s [cp, ''latest'']) = 500"
      using latest_route [of cp c s] cq by simp
    assume p: "ParseIntPipe np = Inr n"
    obtain err where "byNumber enc s c n = Inl err"
      using h byNumber_throws [of c n enc s] by blast
    then show "statusCode (evmBlocksGet enc s [cp, np]) = 500"
      using h p np cq byNumber_route [of cp c np n enc s] by simp
  qed
  have h: "ParseIntPipe cp = Inr c \<and> ParseIntPipe np = Inr n \<and> 2 ^ 63 \<le> \<bar>n\<bar>
      \<longrightarrow> statusCode (evmBlocksGet enc s [cp, np]) = 500"
  proof
    assume p: "ParseIntPipe cp = Inr c \<and> ParseIntPipe np = Inr n \<and> 2 ^ 63 \<le> \<bar>n\<bar>"
    obtain err where "byNumber enc s c n = Inl err"
      using p byNumber_throws [of c n enc s] by blast
    then show "statusCode (evmBlocksGet enc s [cp, np]) = 500"
      using p np cq byNumber_route [of cp c np n enc s] by simp
  qed
  have i: "toEvmBlockDto r =
        [(''number'', JString (toString (number r))), (''hash'', JString (hash r)),
         (''parentHash'', JString (parentHash r)), (''timestamp'', JString (toString (timestamp r)))]"
    by (simp add: toEvmBlockDto_def)
  have j: "matchesInteger (toString (number r)) \<and> intValue (toString (number r)) = number r"
    by (rule toString_roundtrip)
  have k: "matchesInteger (toString (timestamp r)) \<and> intValue (toString (timestamp r)) = timestamp r"
    by (rule toString_roundtrip)
  show ?thesis
    by (intro conjI a b c d e f g h i) (simp_all add: j k)
qed



lemma pipe_999: "ParseIntPipe ''999'' = Inr 999"
  by (simp add: ParseIntPipe_def matchesInteger_def isDigit_def intValue_def parseDigits_def
      digitVal_def isFiniteNumber_def toNumber_exact)

lemma value_1: "matchesInteger ''1'' \<and> intValue ''1'' = 1"
  by (simp add: matchesInteger_def isDigit_def intValue_def parseDigits_def digitVal_def)

lemma value_999: "matchesInteger ''999'' \<and> intValue ''999'' = 999"
  by (simp add: matchesInteger_def isDigit_def intValue_def parseDigits_def digitVal_def)

lemma value_19000005: "matchesInteger ''19000005'' \<and> intValue ''19000005'' = 19000005"
  by (simp add: matchesInteger_def isDigit_def intValue_def parseDigits_def digitVal_def)

lemma value_99999999: "matchesInteger ''99999999'' \<and> intValue ''99999999'' = 99999999"
  by (simp add: matchesInteger_def isDigit_def intValue_def parseDigits_def digitVal_def)

lemma invalid_not_integer: "\<not> matchesInteger ''invalid''"
  by (simp add: matchesInteger_def isDigit_def)

lemma storedChain_rows:
  "rowAt storedChain 1 19000005 = Some (mockBlock 1 19000005)
   \<and> rowAt storedChain 1 99999999 = None
   \<and> getLatest storedChain 1 = Some (mockBlock 1 19000009)
   \<and> getLatest storedChain 999 = None"
  by (simp add: storedChain_def island_def rowAt_def getLatest_def higher_def mockBlock_def)

text \<open>Heights 19000000..19000009 of chain 1: the latest and a stored height are served, a
  missing height and a missing chain give the sentinel, a non-numeric parameter gives 400,
  the chain id \<open>2 ^ 31\<close> and the height \<open>2 ^ 63\<close> give 500.\<close>

theorem read_shape_witness:
  "evmBlocksGet sameKey storedChain [''1'', ''latest'']
     = \<lparr>statusCode = 200, responseBody = Some (toEvmBlockDto (mockBlock 1 19000009))\<rparr>
   \<and> evmBlocksGet sameKey storedChain [''999'', ''latest'']
     = \<lparr>statusCode = 200, responseBody = Some [(''error'', JString ''Not found'')]\<rparr>
   \<and> statusCode (evmBlocksGet sameKey storedChain [''invalid'', ''latest'']) = 400
   \<and> evmBlocksGet sameKey storedChain [''1'', ''19000005'']
     = \<lparr>statusCode = 200, responseBody = Some (toEvmBlockDto (mockBlock 1 19000005))\<rparr>
   \<and> evmBlocksGet sameKey storedChain [''1'', ''99999999'']
     = \<lparr>statusCode = 200, responseBody = Some [(''error'', JString ''Not found'')]\<rparr>
   \<and> statusCode (evmBlocksGet sameKey storedChain [''1'', ''invalid'']) = 400
   \<and> statusCode (evmBlocksGet sameKey storedChain [''2147483648'', ''latest'']) = 500
   \<and> statusCode (evmBlocksGet sameKey storedChain [''2147483648'', ''19000005'']) = 500
   \<and> statusCode (evmBlocksGet sameKey storedChain [''1'', ''9223372036854775808'']) = 500"
proof -
  have r1: "getLatest storedChain 1 = Some (mockBlock 1 19000009)"
    and r2: "getLatest storedChain 999 = None"
    and r3: "rowAt storedChain 1 19000005 = Some (mockBlock 1 19000005)"
    and r4: "rowAt storedChain 1 99999999 = None"
    using storedChain_rows by blast+
  have i1: "inInt32 1" and i999: "inInt32 999" and big: "\<not> inInt32 2147483648"
    by (simp_all add: inInt32_def)
  have p5: "ParseIntPipe ''19000005'' = Inr 19000005"
    using pipe_value [of "''19000005''"] value_19000005 by simp
  have a: "evmBlocksGet sameKey storedChain [''1'', ''latest'']
     = \<lparr>statusCode = 200, responseBody = Some (toEvmBlockDto (mockBlock 1 19000009))\<rparr>"
  proof -
    have p: "matchesInteger ''1'' \<and> inInt32 (intValue ''1'')
        \<and> getLatest storedChain (intValue ''1'') = Some (mockBlock 1 19000009)"
      using value_1 i1 r1 by simp
    show ?thesis
      using read_shape [of "''1''" storedChain "mockBlock 1 19000009" sameKey "''19000005''"
          1 19000005, THEN conjunct1] p
      by (rule mp)
  qed
  have b: "evmBlocksGet sameKey storedChain [''999'', ''latest'']
     = \<lparr>statusCode = 200, responseBody = Some [(''error'', JString ''Not found'')]\<rparr>"
  proof -
    have p: "matchesInteger ''999'' \<and> inInt32 (intValue ''999'')
        \<and> getLatest storedChain (intValue ''999'') = None"
      using value_999 i999 r2 by simp
    show ?thesis
      using read_shape [of "''999''" storedChain "mockBlock 1 19000009" sameKey "''19000005''"
          999 19000005, THEN conjunct2, THEN conjunct1] p
      by (rule mp)
  qed
  have c: "statusCode (evmBlocksGet sameKey storedChain [''invalid'', ''latest'']) = 400"
  proof -
    have p: "''invalid'' \<noteq> [] \<and> \<not> matchesInteger ''invalid''"
      using invalid_not_integer by simp
    show ?thesis
      using read_shape [of "''invalid''" storedChain "mockBlock 1 19000009" sameKey "''19000005''"
          1 19000005, THEN conjunct2, THEN conjunct2, THEN conjunct1] p
      by (rule mp)
  qed
  have d: "evmBlocksGet sameKey storedChain [''1'', ''19000005'']
     = \<lparr>statusCode = 200, responseBody = Some (toEvmBlockDto (mockBlock 1 19000005))\<rparr>"
  proof -
    have p: "matchesInteger ''1'' \<and> inInt32 (intValue ''1'') \<and> matchesInteger ''19000005''
        \<and> \<bar>intValue ''19000005''\<bar> \<le> 2 ^ 53
        \<and> rowAt storedChain (intValue ''1'') (intValue ''19000005'') = Some (mockBlock 1 19000005)"
      using value_1 value_19000005 i1 r3 by simp
    show ?thesis
      using read_shape [of "''1''" storedChain "mockBlock 1 19000005" sameKey "''19000005''"
          1 19000005, THEN conjunct2, THEN conjunct2, THEN conjunct2, THEN conjunct1] p
      by (rule mp)
  qed
  have e: "evmBlocksGet sameKey storedChain [''1'', ''99999999'']
     = \<lparr>statusCode = 200, responseBody = Some [(''error'', JString ''Not found'')]\<rparr>"
  proof -
    have p: "matchesInteger ''1'' \<and> inInt32 (intValue ''1'') \<and> matchesInteger ''99999999''
        \<and> \<bar>intValue ''99999999''\<bar> \<le> 2 ^ 53
        \<and> rowAt storedChain (intValue ''1'') (intValue ''99999999'') = None"
      using value_1 value_99999999 i1 r4 by simp
    show ?thesis
      using read_shape [of "''1''" storedChain "mockBlock 1 19000005" sameKey "''99999999''"
          1 99999999, THEN conjunct2, THEN conjunct2, THEN conjunct2, THEN conjunct2,
          THEN conjunct1] p
      by (rule mp)
  qed
  have f: "statusCode (evmBlocksGet sameKey storedChain [''1'', ''invalid'']) = 400"
  proof -
    have p: "''1'' \<noteq> [] \<and> ''invalid'' \<noteq> [] \<and> ''invalid'' \<noteq> ''latest''
        \<and> (\<not> matchesInteger ''1'' \<or> \<not> matchesInteger ''invalid'')"
      using invalid_not_integer by simp
    show ?thesis
      using read_shape [of "''1''" storedChain "mockBlock 1 19000005" sameKey "''invalid''"
          1 0, THEN conjunct2, THEN conjunct2, THEN conjunct2, THEN conjunct2, THEN conjunct2,
          THEN conjunct1] p
      by (rule mp)
  qed
  have g: "statusCode (evmBlocksGet sameKey storedChain [''2147483648'', ''latest'']) = 500
      \<and> (ParseIntPipe ''19000005'' = Inr 19000005
           \<longrightarrow> statusCode (evmBlocksGet sameKey storedChain [''2147483648'', ''19000005'']) = 500)"
  proof -
    have p: "ParseIntPipe ''2147483648'' = Inr 2147483648 \<and> \<not> inInt32 2147483648"
      using pipe_2_31 big by simp
    show ?thesis
      using read_shape [of "''2147483648''" storedChain "mockBlock 1 19000005" sameKey
          "''19000005''" 2147483648 19000005, THEN conjunct2, THEN conjunct2, THEN conjunct2,
          THEN conjunct2, THEN conjunct2, THEN conjunct2, THEN conjunct1] p
      by (rule mp)
  qed
  have g1: "statusCode (evmBlocksGet sameKey storedChain [''2147483648'', ''latest'']) = 500"
    using g by (rule conjunct1)
  have g2: "statusCode (evmBlocksGet sameKey storedChain [''2147483648'', ''19000005'']) = 500"
    using g [THEN conjunct2] p5 by (rule mp)
  have h: "statusCode (evmBlocksGet sameKey storedChain [''1'', ''9223372036854775808'']) = 500"
  proof -
    have p: "ParseIntPipe ''1'' = Inr 1
        \<and> ParseIntPipe ''9223372036854775808'' = Inr 9223372036854775808
        \<and> 2 ^ 63 \<le> \<bar>9223372036854775808::int\<bar>"
      using pipe_1 pipe_2_63 by simp
    show ?thesis
      using read_shape [of "''1''" storedChain "mockBlock 1 19000005" sameKey
          "''9223372036854775808''" 1 9223372036854775808, THEN conjunct2, THEN conjunct2,
          THEN conjunct2, THEN conjunct2, THEN conjunct2, THEN conjunct2, THEN conjunct2,
          THEN conjunct1] p
      by (rule mp)
  qed
  show ?thesis
    by (intro conjI a b c d e f g1 g2 h)
qed



section \<open>Properties of the RPC gateway\<close>

text \<open>
  Claim C6 as stated fails: with no URL configured, the operations against chain 99999
  raise nothing. \<open>getChainName\<close> answers with the name of the mainnet descriptor, the
  client built for the chain is the one chain 1 has, and the chain joins the configured
  chain ids.
\<close>

theorem unknown_chain_counterexample:
  "fst (viemGetChainName noConfig (ViemRpcService noConfig) 99999) = ''Ethereum''
   \<and> fst (getClient noConfig (ViemRpcService noConfig) 99999)
       = \<lparr>chain = mainnet, transportUrl = ''''\<rparr>
   \<and> fst (getClient noConfig (ViemRpcService noConfig) 99999)
       = fst (getClient noConfig (ViemRpcService noConfig) 1)
   \<and> viemGetConfiguredChainIds (snd (getClient noConfig (ViemRpcService noConfig) 99999)) = [1, 99999]"
  by (simp add: viemGetChainName_def getClient_def ViemRpcService_def noConfig_def configGet_def
      createPublicClient_def viemChainById_def viemGetConfiguredChainIds_def Let_def)

text \<open>
  Claim C6, amended. For a chain without a cached client the gateway builds and caches a
  client from \<open>viemChainById\<close> and the configured URL (the empty string when the variable
  is unset) and raises no error of its own: \<open>getChainName\<close> returns the name of the
  client's descriptor, \<open>getHeadNumber\<close> and \<open>getBlockByNumber\<close> return what the transport
  of that client answers. For an id outside the six known chains the descriptor is
  mainnet's, so an unconfigured unknown chain gets a client with the mainnet descriptor
  and the empty URL, and its name is that of mainnet.
\<close>

theorem gateway_builds_client:
  "(map_of cl n = None \<longrightarrow>
      getClient cfg cl n
        = (\<lparr>chain = viemChainById n,
             transportUrl = configGet cfg (''RPC_CHAIN_'' @ toString n @ ''_URL'') ''''\<rparr>,
           cl @ [(n, \<lparr>chain = viemChainById n,
             transportUrl = configGet cfg (''RPC_CHAIN_'' @ toString n @ ''_URL'') ''''\<rparr>)]))
   \<and> (n \<notin> {1, 10, 137, 42161, 8453, 11155111} \<longrightarrow> viemChainById n = mainnet)
   \<and> fst (viemGetChainName cfg cl n) = chainName (chain (fst (getClient cfg cl n)))
   \<and> fst (viemGetHeadNumber net cfg cl n)
       = map_sum id blockNumber (net (fst (getClient cfg cl n)) BlockTagLatest)
   \<and> fst (viemGetBlockByNumber net cfg cl n num) = net (fst (getClient cfg cl n)) (BlockNumber num)
   \<and> (map_of cl n = None \<and> cfg (''RPC_CHAIN_'' @ toString n @ ''_URL'') = None
        \<and> n \<notin> {1, 10, 137, 42161, 8453, 11155111}
      \<longrightarrow> fst (getClient cfg cl n) = \<lparr>chain = mainnet, transportUrl = ''''\<rparr>
          \<and> fst (viemGetChainName cfg cl n) = ''Ethereum'')"
  by (auto simp: getClient_def viemGetChainName_def viemGetHeadNumber_def viemGetBlockByNumber_def
      createPublicClient_def viemChainById_def configGet_def Let_def split: prod.splits sum.splits option.splits)

text \<open>Chain 999 with nothing configured.\<close>

theorem gateway_builds_client_witness:
  "fst (getClient noConfig (ViemRpcService noConfig) 999) = \<lparr>chain = mainnet, transportUrl = ''''\<rparr>
   \<and> fst (viemGetChainName noConfig (ViemRpcService noConfig) 999) = ''Ethereum''"
proof -
  have a: "map_of (ViemRpcService noConfig) 999 = None"
    by (simp add: ViemRpcService_def)
  have b: "noConfig (''RPC_CHAIN_'' @ toString 999 @ ''_URL'') = None"
    by (simp add: noConfig_def)
  have c: "(999::int) \<notin> {1, 10, 137, 42161, 8453, 11155111}" by simp
  show ?thesis
    using a b c gateway_builds_client [of "ViemRpcService noConfig" 999 noConfig]
    by blast
qed

section \<open>Properties of route normalization\<close>

lemma replaceAll_pass: "slashFree t \<Longrightarrow> replaceAll m r (t @ u) = t @ replaceAll m r u"
  by (induction t) (auto simp: slashFree_def)

lemma boundary_joinSegs: "boundary (joinSegs segs)"
  by (cases segs) (simp_all add: boundary_def joinSegs_def)

lemma joinSegs_Cons: "joinSegs (seg # segs) = CHR ''/'' # seg @ joinSegs segs"
  by (simp add: joinSegs_def)

lemma slashFree_drop: "slashFree t \<Longrightarrow> slashFree (drop k t)"
  by (auto simp: slashFree_def dest: in_set_dropD)

lemma replace_join:
  assumes loc: "localMatcher m"
  shows "(\<forall>seg \<in> set segs. slashFree seg) \<Longrightarrow>
     replaceAll m (CHR ''/'' # r') (joinSegs segs) = joinSegs (map (segRep m r') segs)"
proof (induction segs)
  case Nil
  then show ?case by (simp add: joinSegs_def)
next
  case (Cons seg segs)
  have sf: "slashFree seg" using Cons.prems by simp
  have IH: "replaceAll m (CHR ''/'' # r') (joinSegs segs) = joinSegs (map (segRep m r') segs)"
    using Cons by simp
  have same: "m (seg @ joinSegs segs) = m seg"
    using loc sf boundary_joinSegs [of segs] unfolding localMatcher_def by blast
  show ?case
  proof (cases "m seg")
    case None
    have "replaceAll m (CHR ''/'' # r') (joinSegs (seg # segs))
            = CHR ''/'' # replaceAll m (CHR ''/'' # r') (seg @ joinSegs segs)"
      using same None by (simp add: joinSegs_Cons)
    also have "\<dots> = CHR ''/'' # seg @ replaceAll m (CHR ''/'' # r') (joinSegs segs)"
      using sf by (simp add: replaceAll_pass)
    also have "\<dots> = CHR ''/'' # segRep m r' seg @ joinSegs (map (segRep m r') segs)"
      using None by (simp only: IH segRep_def option.case)
    also have "\<dots> = joinSegs (map (segRep m r') (seg # segs))"
      by (simp only: list.map joinSegs_Cons)
    finally show ?thesis .
  next
    case (Some k)
    have k: "k \<le> length seg"
      using loc sf Some boundary_joinSegs [of segs] unfolding localMatcher_def by blast
    have "replaceAll m (CHR ''/'' # r') (joinSegs (seg # segs))
            = (CHR ''/'' # r') @ replaceAll m (CHR ''/'' # r') (drop k (seg @ joinSegs segs))"
      using same Some by (simp add: joinSegs_Cons)
    also have "drop k (seg @ joinSegs segs) = drop k seg @ joinSegs segs"
      using k by simp
    also have "replaceAll m (CHR ''/'' # r') (drop k seg @ joinSegs segs)
                 = drop k seg @ replaceAll m (CHR ''/'' # r') (joinSegs segs)"
      using sf by (simp add: replaceAll_pass slashFree_drop)
    finally have "replaceAll m (CHR ''/'' # r') (joinSegs (seg # segs))
            = (CHR ''/'' # r') @ drop k seg @ replaceAll m (CHR ''/'' # r') (joinSegs segs)" .
    also have "\<dots> = CHR ''/'' # segRep m r' seg @ joinSegs (map (segRep m r') segs)"
      using Some by (simp only: IH segRep_def option.case append_Cons append_assoc)
    also have "\<dots> = joinSegs (map (segRep m r') (seg # segs))"
      by (simp only: list.map joinSegs_Cons)
    finally show ?thesis .
  qed
qed

lemma segRep_slashFree: "slashFree r \<Longrightarrow> slashFree seg \<Longrightarrow> slashFree (segRep m r seg)"
  by (auto simp: segRep_def slashFree_def split: option.splits dest: in_set_dropD)

lemma splitSlash_nonempty: "splitSlash u \<noteq> []"
  by (cases u) auto

lemma splitSlash_pass:
  "slashFree t \<Longrightarrow> splitSlash (t @ u) = (t @ hd (splitSlash u)) # tl (splitSlash u)"
  by (induction t) (auto simp: slashFree_def splitSlash_nonempty)

lemma split_join:
  "(\<forall>seg \<in> set segs. slashFree seg) \<Longrightarrow> splitSlash (joinSegs segs) = [] # segs"
proof (induction segs)
  case Nil
  then show ?case by (simp add: joinSegs_def)
next
  case (Cons seg segs)
  then have "splitSlash (joinSegs segs) = [] # segs" by simp
  then show ?case using Cons.prems by (simp add: joinSegs_Cons splitSlash_pass)
qed

lemma string_as_join:
  "\<exists>t segs. s = t @ joinSegs segs \<and> slashFree t \<and> (\<forall>seg \<in> set segs. slashFree seg)"
proof (induction s)
  case Nil
  have "[] = [] @ joinSegs [] \<and> slashFree [] \<and> (\<forall>seg \<in> set []. slashFree seg)"
    by (simp add: joinSegs_def slashFree_def)
  then show ?case by blast
next
  case (Cons ch cs)
  then obtain t segs where cs: "cs = t @ joinSegs segs" and t: "slashFree t"
    and segs: "\<forall>seg \<in> set segs. slashFree seg" by blast
  show ?case
  proof (cases "ch = CHR ''/''")
    case True
    have "ch # cs = [] @ joinSegs (t # segs)" using True cs by (simp add: joinSegs_Cons)
    moreover have "slashFree []" by (simp add: slashFree_def)
    moreover have "\<forall>seg \<in> set (t # segs). slashFree seg" using t segs by simp
    ultimately show ?thesis by blast
  next
    case False
    have "ch # cs = (ch # t) @ joinSegs segs" using cs by simp
    moreover have "slashFree (ch # t)" using False t by (simp add: slashFree_def)
    ultimately show ?thesis using segs by blast
  qed
qed

lemma path_as_join:
  assumes "p \<noteq> []" "hd p = CHR ''/''"
  shows "\<exists>segs. p = joinSegs segs \<and> segs \<noteq> [] \<and> (\<forall>seg \<in> set segs. slashFree seg)"
proof -
  obtain t segs where p: "p = t @ joinSegs segs" and t: "slashFree t"
    and segs: "\<forall>seg \<in> set segs. slashFree seg"
    using string_as_join by blast
  have "t = []"
  proof (rule ccontr)
    assume "t \<noteq> []"
    then have "hd p = hd t" "hd t \<in> set t" using p by auto
    then show False using t assms(2) by (simp add: slashFree_def)
  qed
  then have "p = joinSegs segs" using p by simp
  moreover have "segs \<noteq> []" using assms(1) calculation by (auto simp: joinSegs_def)
  ultimately show ?thesis using segs by blast
qed

lemma fixedMatch_local:
  assumes ok: "\<And>t. ok t \<Longrightarrow> slashFree t"
  shows "localMatcher (fixedMatch k ok)"
  unfolding localMatcher_def
proof (intro allI impI)
  fix seg rest
  assume a: "slashFree seg \<and> boundary rest"
  have len: "\<forall>j. fixedMatch k ok seg = Some j \<longrightarrow> j \<le> length seg"
    by (auto simp: fixedMatch_def split: if_splits)
  have "fixedMatch k ok (seg @ rest) = fixedMatch k ok seg"
  proof (cases "k \<le> length seg")
    case True
    then show ?thesis by (simp add: fixedMatch_def)
  next
    case False
    then have none: "fixedMatch k ok seg = None" by (simp add: fixedMatch_def)
    show ?thesis
    proof (cases rest)
      case Nil
      then show ?thesis by simp
    next
      case (Cons ch rest')
      then have ch: "ch = CHR ''/''" using a by (simp add: boundary_def)
      obtain j where j: "k - length seg = Suc j" using False by (cases "k - length seg") auto
      have "take k (seg @ rest) = seg @ CHR ''/'' # take j rest'"
        using Cons ch j by simp
      then have "\<not> slashFree (take k (seg @ rest))" by (simp add: slashFree_def)
      then have "\<not> ok (take k (seg @ rest))" using ok by blast
      then show ?thesis using none by (simp add: fixedMatch_def)
    qed
  qed
  then show "fixedMatch k ok (seg @ rest) = fixedMatch k ok seg
      \<and> (\<forall>j. fixedMatch k ok seg = Some j \<longrightarrow> j \<le> length seg)"
    using len by blast
qed

lemma takeWhile_boundary:
  assumes "\<not> p (CHR ''/'')" "boundary rest"
  shows "takeWhile p (seg @ rest) = takeWhile p seg"
proof -
  have "takeWhile p rest = []"
    using assms by (cases rest) (auto simp: boundary_def)
  then show ?thesis by (induction seg) auto
qed

lemma runMatch_boundary:
  assumes "\<not> p (CHR ''/'')" "boundary rest"
  shows "runMatch p (seg @ rest) = runMatch p seg"
  using assms takeWhile_boundary [where p = p and rest = rest and seg = seg]
  by (simp add: runMatch_def)

lemma runMatch_length: "runMatch p seg = Some k \<Longrightarrow> k \<le> length seg"
  by (auto simp: runMatch_def length_takeWhile_le split: if_splits)

lemma slash_not_hex: "\<not> isHex (CHR ''/'')"
  by (simp add: isHex_def)

lemma slash_not_digit: "\<not> isDigit (CHR ''/'')"
  by (simp add: isDigit_def)

lemma hex_slashFree: "list_all isHex t \<Longrightarrow> slashFree t"
  using slash_not_hex by (auto simp: slashFree_def list_all_iff)

lemma uuidShape_slashFree: "uuidShape t \<Longrightarrow> slashFree t"
proof -
  assume u: "uuidShape t"
  have "charClass ch \<noteq> CHR ''?''" if "ch \<in> set t" for ch
  proof -
    have "charClass ch \<in> set (map charClass t)" using that by simp
    then show ?thesis using u unfolding uuidShape_def by auto
  qed
  moreover have "charClass (CHR ''/'') = CHR ''?''"
    by (simp add: charClass_def isHex_def)
  ultimately show ?thesis unfolding slashFree_def by metis
qed

lemma local_uuid: "localMatcher matchUuid"
  unfolding matchUuid_def by (rule fixedMatch_local) (rule uuidShape_slashFree)

lemma local_hex64: "localMatcher matchHex64"
  unfolding matchHex64_def by (rule fixedMatch_local) (rule hex_slashFree)

lemma local_hex40: "localMatcher matchHex40"
  unfolding matchHex40_def by (rule fixedMatch_local) (rule hex_slashFree)

lemma local_digits: "localMatcher matchDigits"
  unfolding localMatcher_def matchDigits_def
proof (intro allI impI conjI)
  fix seg rest
  assume a: "slashFree seg \<and> boundary rest"
  show "runMatch isDigit (seg @ rest) = runMatch isDigit seg"
    using a slash_not_digit by (intro runMatch_boundary) simp_all
next
  fix seg rest k
  assume "runMatch isDigit seg = Some k"
  then show "k \<le> length seg" by (rule runMatch_length)
qed

lemma local_hexPrefixed: "localMatcher matchHexPrefixed"
  unfolding localMatcher_def
proof (intro allI impI)
  fix seg rest
  assume a: "slashFree seg \<and> boundary rest"
  have len: "\<forall>k. matchHexPrefixed seg = Some k \<longrightarrow> k \<le> length seg"
    by (auto simp: matchHexPrefixed_def split: list.splits if_splits dest: runMatch_length)
  have "matchHexPrefixed (seg @ rest) = matchHexPrefixed seg"
  proof (cases seg)
    case Nil
    then show ?thesis using a
      by (cases rest) (auto simp: matchHexPrefixed_def boundary_def split: list.splits)
  next
    case (Cons z seg')
    show ?thesis
    proof (cases seg')
      case Nil
      then show ?thesis using a Cons
        by (cases rest) (auto simp: matchHexPrefixed_def boundary_def split: list.splits)
    next
      case (Cons x r)
      have "runMatch isHex (r @ rest) = runMatch isHex r"
        using a slash_not_hex by (intro runMatch_boundary) simp_all
      then show ?thesis using \<open>seg = z # seg'\<close> Cons by (auto simp: matchHexPrefixed_def)
    qed
  qed
  then show "matchHexPrefixed (seg @ rest) = matchHexPrefixed seg
      \<and> (\<forall>k. matchHexPrefixed seg = Some k \<longrightarrow> k \<le> length seg)"
    using len by blast
qed

lemma colon_no_match:
  "matchUuid (CHR '':'' # t) = None"
  "matchHexPrefixed (CHR '':'' # t) = None"
  "matchHex64 (CHR '':'' # t) = None"
  "matchHex40 (CHR '':'' # t) = None"
  "matchDigits (CHR '':'' # t) = None"
  by (simp_all add: matchUuid_def matchHexPrefixed_def matchHex64_def matchHex40_def
      matchDigits_def fixedMatch_def runMatch_def uuidShape_def charClass_def isHex_def
      isDigit_def split: list.splits)

lemma colon_not_idLike: "\<not> idLike (CHR '':'' # t)"
  by (simp add: idLike_def digitOnly_def hexOfLength_def hexPrefixed_def uuidShape_def
      charClass_def isHex_def isDigit_def split: list.splits)

lemma segRep_colon: "m (CHR '':'' # t) = None \<Longrightarrow> segRep m r (CHR '':'' # t) = CHR '':'' # t"
  by (simp add: segRep_def)

lemma segRep_cases:
  "(m seg = None \<and> segRep m (CHR '':'' # r) seg = seg)
   \<or> (\<exists>t. segRep m (CHR '':'' # r) seg = CHR '':'' # t)"
  by (cases "m seg") (simp_all add: segRep_def)

lemma uuid_fires: "uuidShape seg \<Longrightarrow> matchUuid seg \<noteq> None"
proof -
  assume u: "uuidShape seg"
  then have "length (map charClass seg) = 36" unfolding uuidShape_def by simp
  then have "length seg = 36" by simp
  then show ?thesis using u by (simp add: matchUuid_def fixedMatch_def)
qed

lemma hexPrefixed_fires: "hexPrefixed seg \<Longrightarrow> matchHexPrefixed seg \<noteq> None"
proof -
  assume h: "hexPrefixed seg"
  then obtain z x rest where seg: "seg = z # x # rest" and zx: "z = CHR ''0''"
      "x = CHR ''x'' \<or> x = CHR ''X''" and rest: "rest \<noteq> []" "list_all isHex rest"
    by (auto simp: hexPrefixed_def split: list.splits)
  have "takeWhile isHex rest \<noteq> []" using rest by (cases rest) auto
  then show ?thesis using seg zx by (auto simp: matchHexPrefixed_def runMatch_def)
qed

lemma hex_fires:
  "hexOfLength 64 seg \<Longrightarrow> matchHex64 seg \<noteq> None"
  "hexOfLength 40 seg \<Longrightarrow> matchHex40 seg \<noteq> None"
  by (simp_all add: hexOfLength_def matchHex64_def matchHex40_def fixedMatch_def)

lemma digits_fire: "digitOnly seg \<Longrightarrow> matchDigits seg \<noteq> None"
proof -
  assume d: "digitOnly seg"
  then have "takeWhile isDigit seg \<noteq> []" by (cases seg) (auto simp: digitOnly_def)
  then show ?thesis by (simp add: matchDigits_def runMatch_def)
qed

lemma normSeg_clean: "\<not> idLike (normSeg seg)"
proof -
  let ?s1 = "segRep matchUuid '':id'' seg"
  let ?s2 = "segRep matchHexPrefixed '':hash'' ?s1"
  let ?s3 = "segRep matchHex64 '':hash'' ?s2"
  let ?s4 = "segRep matchHex40 '':address'' ?s3"
  let ?s5 = "segRep matchDigits '':id'' ?s4"
  have n: "normSeg seg = ?s5" by (simp add: normSeg_def)
  have keep: "\<exists>t. s = CHR '':'' # t \<Longrightarrow>
      segRep matchHexPrefixed '':hash'' s = s \<and> segRep matchHex64 '':hash'' s = s
      \<and> segRep matchHex40 '':address'' s = s \<and> segRep matchDigits '':id'' s = s" for s
    by (auto simp: segRep_def colon_no_match)
  consider (a) "\<exists>t. ?s1 = CHR '':'' # t"
    | (b) "matchUuid seg = None" "?s1 = seg" "\<exists>t. ?s2 = CHR '':'' # t"
    | (c) "matchUuid seg = None" "matchHexPrefixed seg = None" "?s2 = seg" "\<exists>t. ?s3 = CHR '':'' # t"
    | (d) "matchUuid seg = None" "matchHexPrefixed seg = None" "matchHex64 seg = None"
          "?s3 = seg" "\<exists>t. ?s4 = CHR '':'' # t"
    | (e) "matchUuid seg = None" "matchHexPrefixed seg = None" "matchHex64 seg = None"
          "matchHex40 seg = None" "?s4 = seg" "\<exists>t. ?s5 = CHR '':'' # t"
    | (f) "matchUuid seg = None" "matchHexPrefixed seg = None" "matchHex64 seg = None"
          "matchHex40 seg = None" "matchDigits seg = None" "?s5 = seg"
    using segRep_cases [of matchUuid seg "''id''"]
      segRep_cases [of matchHexPrefixed seg "''hash''"]
      segRep_cases [of matchHex64 seg "''hash''"]
      segRep_cases [of matchHex40 seg "''address''"]
      segRep_cases [of matchDigits seg "''id''"]
    by (metis (no_types, lifting))
  then show ?thesis
  proof cases
    case a
    then have "?s5 = ?s1" using keep by metis
    then show ?thesis using a n colon_not_idLike by metis
  next
    case b
    then have "?s5 = ?s2" using keep by metis
    then show ?thesis using b n colon_not_idLike by metis
  next
    case c
    then have "?s5 = ?s3" using keep by metis
    then show ?thesis using c n colon_not_idLike by metis
  next
    case d
    then have "?s5 = ?s4" using keep by metis
    then show ?thesis using d n colon_not_idLike by metis
  next
    case e
    then show ?thesis using n colon_not_idLike by metis
  next
    case f
    then have "\<not> idLike seg"
      using uuid_fires [of seg] hexPrefixed_fires [of seg] hex_fires [of seg] digits_fire [of seg]
      by (auto simp: idLike_def)
    then show ?thesis using f n by simp
  qed
qed

lemma slashFree_labels:
  "slashFree '':id''" "slashFree '':hash''" "slashFree '':address''"
  by (simp_all add: slashFree_def)

lemma replaced_join:
  assumes "\<forall>seg \<in> set segs. slashFree seg"
  shows "replaceAll matchDigits ''/:id''
          (replaceAll matchHex40 ''/:address''
            (replaceAll matchHex64 ''/:hash''
              (replaceAll matchHexPrefixed ''/:hash''
                (replaceAll matchUuid ''/:id'' (joinSegs segs)))))
         = joinSegs (map normSeg segs)"
proof -
  let ?f1 = "segRep matchUuid '':id''"
  let ?f2 = "segRep matchHexPrefixed '':hash''"
  let ?f3 = "segRep matchHex64 '':hash''"
  let ?f4 = "segRep matchHex40 '':address''"
  let ?f5 = "segRep matchDigits '':id''"
  have s1: "\<forall>seg \<in> set (map ?f1 segs). slashFree seg"
    using assms by (simp add: segRep_slashFree slashFree_labels)
  have s2: "\<forall>seg \<in> set (map ?f2 (map ?f1 segs)). slashFree seg"
    using s1 by (simp add: segRep_slashFree slashFree_labels)
  have s3: "\<forall>seg \<in> set (map ?f3 (map ?f2 (map ?f1 segs))). slashFree seg"
    using s2 by (simp add: segRep_slashFree slashFree_labels)
  have s4: "\<forall>seg \<in> set (map ?f4 (map ?f3 (map ?f2 (map ?f1 segs)))). slashFree seg"
    using s3 by (simp add: segRep_slashFree slashFree_labels)
  have r1: "replaceAll matchUuid ''/:id'' (joinSegs segs) = joinSegs (map ?f1 segs)"
    using replace_join [OF local_uuid assms, of "'':id''"] by simp
  have r2: "replaceAll matchHexPrefixed ''/:hash'' (joinSegs (map ?f1 segs))
              = joinSegs (map ?f2 (map ?f1 segs))"
    using replace_join [OF local_hexPrefixed s1, of "'':hash''"] by simp
  have r3: "replaceAll matchHex64 ''/:hash'' (joinSegs (map ?f2 (map ?f1 segs)))
              = joinSegs (map ?f3 (map ?f2 (map ?f1 segs)))"
    using replace_join [OF local_hex64 s2, of "'':hash''"] by simp
  have r4: "replaceAll matchHex40 ''/:address'' (joinSegs (map ?f3 (map ?f2 (map ?f1 segs))))
              = joinSegs (map ?f4 (map ?f3 (map ?f2 (map ?f1 segs))))"
    using replace_join [OF local_hex40 s3, of "'':address''"] by simp
  have r5: "replaceAll matchDigits ''/:id'' (joinSegs (map ?f4 (map ?f3 (map ?f2 (map ?f1 segs)))))
              = joinSegs (map ?f5 (map ?f4 (map ?f3 (map ?f2 (map ?f1 segs)))))"
    using replace_join [OF local_digits s4, of "'':id''"] by simp
  have "map ?f5 (map ?f4 (map ?f3 (map ?f2 (map ?f1 segs)))) = map normSeg segs"
    by (simp add: normSeg_def)
  then show ?thesis by (simp only: r1 r2 r3 r4 r5)
qed

lemma normSeg_slashFree: "slashFree seg \<Longrightarrow> slashFree (normSeg seg)"
  by (simp add: normSeg_def segRep_slashFree slashFree_labels)

lemma empty_not_idLike: "\<not> idLike []"
  by (simp add: idLike_def digitOnly_def hexOfLength_def hexPrefixed_def uuidShape_def)

lemma unknown_not_idLike: "\<not> idLike ''unknown''"
  by (simp add: idLike_def digitOnly_def hexOfLength_def hexPrefixed_def uuidShape_def
      isDigit_def)

lemma normalizeRoute_segments:
  assumes "slashLed p"
  shows "\<forall>seg \<in> set (splitSlash (normalizeRoute p)). \<not> idLike seg"
proof (cases "p = []")
  case True
  then have "normalizeRoute p = ''/unknown''" by (simp add: normalizeRoute_def)
  then show ?thesis using empty_not_idLike unknown_not_idLike by simp
next
  case False
  then have "hd p = CHR ''/''" using assms by (simp add: slashLed_def)
  then obtain segs where p: "p = joinSegs segs" and ne: "segs \<noteq> []"
    and sf: "\<forall>seg \<in> set segs. slashFree seg"
    using path_as_join [OF False] by blast
  have nz: "joinSegs (map normSeg segs) \<noteq> []"
    using ne by (cases segs) (simp_all add: joinSegs_Cons)
  have "normalizeRoute p = joinSegs (map normSeg segs)"
    using nz unfolding normalizeRoute_def p replaced_join [OF sf] by (simp add: Let_def)
  moreover have "splitSlash (joinSegs (map normSeg segs)) = [] # map normSeg segs"
    using sf by (intro split_join) (simp add: normSeg_slashFree)
  ultimately show ?thesis using empty_not_idLike normSeg_clean by auto
qed

text \<open>
  Claim C8 (route normalization). For every path that is empty or starts with a slash, as
  request paths and route patterns do, no segment of the normalized route is digit-only,
  40 hex digits, 64 hex digits, \<open>0x\<close>-prefixed hex or a UUID; the same holds for the label
  the middleware records from the route pattern or the request path. The replacements
  are applied in the order UUID, hex-prefixed, 64 hex, 40 hex, decimal.
\<close>

theorem route_label_normalized:
  "(slashLed p \<longrightarrow> (\<forall>seg \<in> set (splitSlash (normalizeRoute p)). \<not> idLike seg))
   \<and> (slashLed reqPath \<and> (case routePath of None \<Rightarrow> True | Some rp \<Rightarrow> slashLed rp)
        \<longrightarrow> (\<forall>seg \<in> set (splitSlash (routeLabel routePath reqPath)). \<not> idLike seg))
   \<and> normalizeRoute p =
        (let replaced =
           replaceAll matchDigits ''/:id''
             (replaceAll matchHex40 ''/:address''
               (replaceAll matchHex64 ''/:hash''
                 (replaceAll matchHexPrefixed ''/:hash''
                   (replaceAll matchUuid ''/:id'' p))))
         in if replaced = [] then ''/unknown'' else replaced)"
proof (intro conjI impI)
  assume "slashLed p"
  then show "\<forall>seg \<in> set (splitSlash (normalizeRoute p)). \<not> idLike seg"
    by (rule normalizeRoute_segments)
next
  assume a: "slashLed reqPath \<and> (case routePath of None \<Rightarrow> True | Some rp \<Rightarrow> slashLed rp)"
  have u: "slashLed ''/unknown''" by (simp add: slashLed_def)
  have "\<exists>q. slashLed q \<and> routeLabel routePath reqPath = normalizeRoute q"
    using a u by (auto simp: routeLabel_def split: option.splits)
  then show "\<forall>seg \<in> set (splitSlash (routeLabel routePath reqPath)). \<not> idLike seg"
    using normalizeRoute_segments by auto
next
  show "normalizeRoute p =
        (let replaced =
           replaceAll matchDigits ''/:id''
             (replaceAll matchHex40 ''/:address''
               (replaceAll matchHex64 ''/:hash''
                 (replaceAll matchHexPrefixed ''/:hash''
                   (replaceAll matchUuid ''/:id'' p))))
         in if replaced = [] then ''/unknown'' else replaced)"
    by (simp add: normalizeRoute_def)
qed

lemmas matcher_defs = matchUuid_def matchHexPrefixed_def matchHex64_def matchHex40_def
  matchDigits_def fixedMatch_def runMatch_def uuidShape_def charClass_def isHex_def isDigit_def

lemma normalize_blocks: "normalizeRoute ''/api/blocks/123'' = ''/api/blocks/:id''"
  by (simp add: normalizeRoute_def matcher_defs)

lemma normalize_uuid:
  "normalizeRoute ''/api/users/550e8400-e29b-41d4-a716-446655440000'' = ''/api/users/:id''"
  by (simp add: normalizeRoute_def matcher_defs)

lemma normalize_tx:
  "normalizeRoute ''/api/tx/0x742d35cc6c6c0532c14216b2e6b1b7e89b5f6cfb'' = ''/api/tx/:hash''"
  by (simp add: normalizeRoute_def matcher_defs)

lemma normalize_address:
  "normalizeRoute ''/api/a/742d35cc6c6c0532c14216b2e6b1b7e89b5f6cfb'' = ''/api/a/:address''"
  by (simp add: normalizeRoute_def matcher_defs)

lemma normalize_hash64:
  "normalizeRoute ''/api/block/88e96d4537bea4d9c05d12549907b32561d3bf31f45aae734cdc119f13406cb6''
     = ''/api/block/:hash''"
  by (simp add: normalizeRoute_def matcher_defs)

text \<open>
  Paths from the service's tests. The hex-prefixed address becomes \<open>:hash\<close> (the
  hex-prefixed replacement runs before the 40-hex one), the UUID becomes \<open>:id\<close> as a
  whole (the UUID replacement runs before the decimal one), and a segment of 64
  hexadecimal digits becomes \<open>:hash\<close>.
\<close>

theorem route_label_normalized_witness:
  "slashLed ''/api/tx/0x742d35cc6c6c0532c14216b2e6b1b7e89b5f6cfb''
   \<and> normalizeRoute ''/api/tx/0x742d35cc6c6c0532c14216b2e6b1b7e89b5f6cfb'' = ''/api/tx/:hash''
   \<and> normalizeRoute ''/api/users/550e8400-e29b-41d4-a716-446655440000'' = ''/api/users/:id''
   \<and> normalizeRoute ''/api/a/742d35cc6c6c0532c14216b2e6b1b7e89b5f6cfb'' = ''/api/a/:address''
   \<and> normalizeRoute ''/api/blocks/123'' = ''/api/blocks/:id''
   \<and> normalizeRoute ''/api/block/88e96d4537bea4d9c05d12549907b32561d3bf31f45aae734cdc119f13406cb6''
        = ''/api/block/:hash''
   \<and> list_all (\<lambda>seg. \<not> idLike seg)
        (splitSlash (normalizeRoute ''/api/tx/0x742d35cc6c6c0532c14216b2e6b1b7e89b5f6cfb''))
   \<and> list_all (\<lambda>seg. \<not> idLike seg)
        (splitSlash (routeLabel None ''/evm/blocks/1/19000005''))"
proof -
  have a: "slashLed ''/api/tx/0x742d35cc6c6c0532c14216b2e6b1b7e89b5f6cfb''"
    by (simp add: slashLed_def)
  have b: "slashLed ''/evm/blocks/1/19000005'' \<and> (case None of None \<Rightarrow> True | Some rp \<Rightarrow> slashLed rp)"
    by (simp add: slashLed_def)
  have c: "\<forall>seg \<in> set (splitSlash (normalizeRoute ''/api/tx/0x742d35cc6c6c0532c14216b2e6b1b7e89b5f6cfb'')).
             \<not> idLike seg"
    and d: "\<forall>seg \<in> set (splitSlash (routeLabel None ''/evm/blocks/1/19000005'')). \<not> idLike seg"
    using a b
      route_label_normalized [of "''/api/tx/0x742d35cc6c6c0532c14216b2e6b1b7e89b5f6cfb''"
        "''/evm/blocks/1/19000005''" None]
    by blast+
  show ?thesis
    using a c d normalize_tx normalize_uuid normalize_address normalize_blocks normalize_hash64
    by (simp only: list_all_iff)
qed

end
